theory Spec2Isabelle
  imports Main "HOL-Library.AList"
begin

section \<open>Data model\<close>

text \<open>
  A node of the trie: \<open>Value\<close> is the Go field \<open>Value *T\<close> (\<open>None\<close> is the nil pointer),
  \<open>Children\<close> is the Go map \<open>map[string]*PathTrie[T]\<close>. The map is an association list:
  lookups go through \<open>map_of\<close>, stores through \<open>AList.update\<close>, and the order of the
  list is the order in which a \<open>range\<close> loop happens to produce the entries. The
  \<open>segmenter\<close> field is the same function in every node of one trie (\<open>newPathTrie\<close>
  copies it), so it is an argument of the operations that read it.
\<close>

datatype 'a PathTrie = PathTrie (Value: "'a option") (Children: "(string \<times> 'a PathTrie) list")

type_synonym StringSegmenter = "string \<Rightarrow> int \<Rightarrow> string \<times> int"

datatype panic = NilDereference | SliceOutOfRange

definition NewPathTrie :: "'a PathTrie" where
  "NewPathTrie = PathTrie None []"

definition newPathTrie :: "'a PathTrie" where
  "newPathTrie = PathTrie None []"

fun IndexRune :: "string \<Rightarrow> char \<Rightarrow> nat option" where
  "IndexRune [] c = None"
| "IndexRune (x # xs) c = (if x = c then Some 0 else map_option Suc (IndexRune xs c))"

text \<open>
  Modelled from the spec: \<open>PathSegmenter\<close>, the default segmenter, is not among the source
  files. It follows the segmenter contract of the data model (the empty segment when no
  segment is left, the next start \<open>-1\<close> with the last segment) and splits at \<open>/\<close>; each
  segment keeps the slash it starts at, as the comment on \<open>PathTrie\<close> in the source says
  (\<open>"/a/b/c" -> "/a", "/b", "/c"\<close>), so that the segments of a key concatenate to the key.
\<close>

definition PathSegmenter :: StringSegmenter where
  "PathSegmenter path start =
     (if length path = 0 \<or> start < 0 \<or> start > int (length path) - 1 then ([], - 1)
      else (case IndexRune (drop (nat start + 1) path) CHR ''/'' of
              None \<Rightarrow> (drop (nat start) path, - 1)
            | Some e \<Rightarrow> (take (e + 1) (drop (nat start) path), start + int e + 1)))"

section \<open>Get and Put\<close>

lemma size_list_child_less:
  "map_of cs k = Some c \<Longrightarrow> size c < Suc (size_list (size_prod (\<lambda>_. 0) size) cs)"
  by (induction cs) (auto split: if_splits)

lemma size_child_less: "map_of (Children node) k = Some c \<Longrightarrow> size c < size node"
  by (cases node) (auto dest: size_list_child_less)

text \<open>
  The loop of \<open>Get\<close>: \<open>part\<close> and \<open>i\<close> are the loop variables, \<open>node\<close> the current node.
  A missing child returns the zero value of \<open>T\<close> (the argument \<open>zero\<close>); after the last
  segment the loop is left and \<open>*node.Value\<close> is read, which panics on a nil pointer.
\<close>

function Get_loop :: "StringSegmenter \<Rightarrow> 'a \<Rightarrow> string \<Rightarrow> 'a PathTrie \<Rightarrow> string \<Rightarrow> int \<Rightarrow> panic + 'a" where
  "Get_loop seg zero key node part i =
     (if part = [] then (case Value node of None \<Rightarrow> Inl NilDereference | Some v \<Rightarrow> Inr v)
      else (case map_of (Children node) part of
              None \<Rightarrow> Inr zero
            | Some child \<Rightarrow> Get_loop seg zero key child (fst (seg key i)) (snd (seg key i))))"
  by pat_completeness auto
termination
  by (relation "measure (\<lambda>(seg, zero, key, node, part, i). size node)")
     (auto simp: size_child_less)

definition Get :: "StringSegmenter \<Rightarrow> 'a \<Rightarrow> 'a PathTrie \<Rightarrow> string \<Rightarrow> panic + 'a" where
  "Get seg zero trie key = Get_loop seg zero key trie (fst (seg key 0)) (snd (seg key 0))"

text \<open>
  The loop of \<open>Put\<close>. Each round looks the child up or creates it with \<open>newPathTrie\<close>
  and stores it under \<open>part\<close>; the Go code then moves \<open>node\<close> down and mutates the
  child in place, which for a tree without sharing is the child rebuilt and stored back.
  The loop ends only when the segmenter returns the empty segment, so the model is a
  partial function: \<open>None\<close> is a loop that never ends. The Go method returns nothing.
\<close>

partial_function (option) Put_loop ::
  "StringSegmenter \<Rightarrow> string \<Rightarrow> 'a \<Rightarrow> 'a PathTrie \<Rightarrow> string \<Rightarrow> int \<Rightarrow> 'a PathTrie option" where
  "Put_loop seg key val node part i =
     (if part = [] then Some (PathTrie (Some val) (Children node))
      else Option.bind
             (Put_loop seg key val
                (case map_of (Children node) part of None \<Rightarrow> newPathTrie | Some child \<Rightarrow> child)
                (fst (seg key i)) (snd (seg key i)))
             (\<lambda>child. Some (PathTrie (Value node) (AList.update part child (Children node)))))"

definition Put :: "StringSegmenter \<Rightarrow> 'a PathTrie \<Rightarrow> string \<Rightarrow> 'a \<Rightarrow> 'a PathTrie option" where
  "Put seg trie key val = Put_loop seg key val trie (fst (seg key 0)) (snd (seg key 0))"

text \<open>
  The termination contract of a segmenter at a key: threading the next start through
  the calls, as the loops of \<open>Get\<close> and \<open>Put\<close> do, reaches the empty segment.
\<close>

inductive seg_stops :: "StringSegmenter \<Rightarrow> string \<Rightarrow> string \<Rightarrow> int \<Rightarrow> bool" where
  stop: "seg_stops seg key [] i"
| step: "part \<noteq> [] \<Longrightarrow> seg_stops seg key (fst (seg key i)) (snd (seg key i)) \<Longrightarrow>
         seg_stops seg key part i"

definition terminates_on :: "StringSegmenter \<Rightarrow> string \<Rightarrow> bool" where
  "terminates_on seg key = seg_stops seg key (fst (seg key 0)) (snd (seg key 0))"

section \<open>Walk and WalkPath\<close>

text \<open>
  A walker is a Go closure \<open>func(key string, value T) error\<close>: it may keep state between
  calls. In the model the state \<open>'s\<close> is passed in and returned, and the error result is
  \<open>None\<close> for nil. \<open>walk\<close> calls the walker on the node's value, if there is one, and
  then ranges over the children (\<open>walk_range\<close>, in the order of the list), leaving at the
  first error.
\<close>

type_synonym ('a, 'e, 's) WalkFunc = "string \<Rightarrow> 'a \<Rightarrow> 's \<Rightarrow> 'e option \<times> 's"

fun walk :: "'a PathTrie \<Rightarrow> string \<Rightarrow> ('a, 'e, 's) WalkFunc \<Rightarrow> 's \<Rightarrow> 'e option \<times> 's"
  and walk_range :: "(string \<times> 'a PathTrie) list \<Rightarrow> string \<Rightarrow> ('a, 'e, 's) WalkFunc \<Rightarrow> 's \<Rightarrow> 'e option \<times> 's" where
  "walk (PathTrie None cs) key walker s = walk_range cs key walker s"
| "walk (PathTrie (Some x) cs) key walker s =
     (case walker key x s of
        (Some err, s') \<Rightarrow> (Some err, s')
      | (None, s') \<Rightarrow> walk_range cs key walker s')"
| "walk_range [] key walker s = (None, s)"
| "walk_range ((part, child) # rest) key walker s =
     (case walk child (key @ part) walker s of
        (Some err, s') \<Rightarrow> (Some err, s')
      | (None, s') \<Rightarrow> walk_range rest key walker s')"

definition Walk :: "'a PathTrie \<Rightarrow> ('a, 'e, 's) WalkFunc \<Rightarrow> 's \<Rightarrow> 'e option \<times> 's" where
  "Walk trie walker s = walk trie [] walker s"

text \<open>
  The loop of \<open>WalkPath\<close>, entered after the root's value was handled. It has no test on
  \<open>part\<close>: it ends at a missing child, at an error of the walker, or after the round in
  which the segmenter returned the next start \<open>-1\<close>. The slice \<open>key[0:i]\<close> panics when \<open>i\<close>
  is outside \<open>0..len(key)\<close>.
\<close>

function WalkPath_loop ::
  "StringSegmenter \<Rightarrow> string \<Rightarrow> ('a, 'e, 's) WalkFunc \<Rightarrow> 'a PathTrie \<Rightarrow> string \<Rightarrow> int \<Rightarrow> 's
     \<Rightarrow> (panic + 'e option) \<times> 's" where
  "WalkPath_loop seg key walker trie part i s =
     (case map_of (Children trie) part of
        None \<Rightarrow> (Inr None, s)
      | Some child \<Rightarrow>
          (case Value child of
             None \<Rightarrow>
               (if i = - 1 then (Inr None, s)
                else WalkPath_loop seg key walker child (fst (seg key i)) (snd (seg key i)) s)
           | Some x \<Rightarrow>
               (if i \<noteq> - 1 \<and> (i < 0 \<or> int (length key) < i) then (Inl SliceOutOfRange, s)
                else (case walker (if i = - 1 then key else take (nat i) key) x s of
                        (Some err, s') \<Rightarrow> (Inr (Some err), s')
                      | (None, s') \<Rightarrow>
                          (if i = - 1 then (Inr None, s')
                           else WalkPath_loop seg key walker child
                                  (fst (seg key i)) (snd (seg key i)) s')))))"
  by pat_completeness auto
termination
  by (relation "measure (\<lambda>(seg, key, walker, trie, part, i, s). size trie)")
     (auto simp: size_child_less)

definition WalkPath ::
  "StringSegmenter \<Rightarrow> 'a PathTrie \<Rightarrow> string \<Rightarrow> ('a, 'e, 's) WalkFunc \<Rightarrow> 's \<Rightarrow> (panic + 'e option) \<times> 's" where
  "WalkPath seg trie key walker s =
     (case Value trie of
        None \<Rightarrow> WalkPath_loop seg key walker trie (fst (seg key 0)) (snd (seg key 0)) s
      | Some x \<Rightarrow>
          (case walker [] x s of
             (Some err, s') \<Rightarrow> (Inr (Some err), s')
           | (None, s') \<Rightarrow> WalkPath_loop seg key walker trie (fst (seg key 0)) (snd (seg key 0)) s'))"

text \<open>
  A children list stands for a Go map when no key occurs twice in it, at every node.
\<close>

fun is_map :: "'a PathTrie \<Rightarrow> bool" where
  "is_map (PathTrie v cs) = (distinct (map fst cs) \<and> (\<forall>c \<in> set (map snd cs). is_map c))"

text \<open>
  Calling a walker on a list of key/value pairs in turn, leaving at the first error:
  what a traversal does with the pairs it comes to. Used to state what \<open>walk\<close> computes.
\<close>

fun run_walker :: "('a, 'e, 's) WalkFunc \<Rightarrow> (string \<times> 'a) list \<Rightarrow> 's \<Rightarrow> 'e option \<times> 's" where
  "run_walker walker [] s = (None, s)"
| "run_walker walker ((key, x) # rest) s =
     (case walker key x s of
        (Some err, s') \<Rightarrow> (Some err, s')
      | (None, s') \<Rightarrow> run_walker walker rest s')"

text \<open>
  The node reached from \<open>t\<close> by following one child per segment, and the value stored
  there; \<open>None\<close> when a child is missing (or, for \<open>value_at\<close>, when the node is internal).
\<close>

fun node_at :: "'a PathTrie \<Rightarrow> string list \<Rightarrow> 'a PathTrie option" where
  "node_at t [] = Some t"
| "node_at t (part # parts) =
     (case map_of (Children t) part of None \<Rightarrow> None | Some child \<Rightarrow> node_at child parts)"

definition value_at :: "'a PathTrie \<Rightarrow> string list \<Rightarrow> 'a option" where
  "value_at t parts = (case node_at t parts of None \<Rightarrow> None | Some n \<Rightarrow> Value n)"

text \<open>
  The segment paths of the nodes that hold a value, and the key/value pairs \<open>walk\<close>
  comes to, both in the order of the children lists.
\<close>

fun paths :: "'a PathTrie \<Rightarrow> string list list"
  and paths_range :: "(string \<times> 'a PathTrie) list \<Rightarrow> string list list" where
  "paths (PathTrie v cs) = (case v of None \<Rightarrow> [] | Some x \<Rightarrow> [[]]) @ paths_range cs"
| "paths_range [] = []"
| "paths_range ((part, child) # rest) = map ((#) part) (paths child) @ paths_range rest"

fun visits :: "'a PathTrie \<Rightarrow> string \<Rightarrow> (string \<times> 'a) list"
  and visits_range :: "(string \<times> 'a PathTrie) list \<Rightarrow> string \<Rightarrow> (string \<times> 'a) list" where
  "visits (PathTrie v cs) key = (case v of None \<Rightarrow> [] | Some x \<Rightarrow> [(key, x)]) @ visits_range cs key"
| "visits_range [] key = []"
| "visits_range ((part, child) # rest) key = visits child (key @ part) @ visits_range rest key"

text \<open>
  Two walkers. \<open>collect\<close> never fails and appends each call to a log. \<open>recording w\<close>
  behaves as \<open>w\<close> and logs every call of \<open>w\<close> with the error it returned.
  \<open>ends_at_first_error r log\<close>: no call but the last returned an error, and \<open>r\<close> is what
  the last call returned (nil when there was no call).
\<close>

definition collect :: "('a, 'e, (string \<times> 'a) list) WalkFunc" where
  "collect key x log = (None, log @ [(key, x)])"

definition recording ::
  "('a, 'e, 's) WalkFunc \<Rightarrow> ('a, 'e, (string \<times> 'a \<times> 'e option) list \<times> 's) WalkFunc" where
  "recording walker key x = (\<lambda>(log, s).
     case walker key x s of (r, s') \<Rightarrow> (r, (log @ [(key, x, r)], s')))"

definition ends_at_first_error :: "'e option \<Rightarrow> (string \<times> 'a \<times> 'e option) list \<Rightarrow> bool" where
  "ends_at_first_error r log =
     ((\<forall>c \<in> set (butlast log). snd (snd c) = None) \<and>
      r = (if log = [] then None else snd (snd (last log))))"

text \<open>
  The part of the segmenter contract that \<open>WalkPath\<close> relies on for its slice
  \<open>key[0:i]\<close>: a next start is \<open>-1\<close> or an index into the key.
\<close>

definition next_in_range :: "StringSegmenter \<Rightarrow> string \<Rightarrow> bool" where
  "next_in_range seg key = (\<forall>i. snd (seg key i) = - 1 \<or> (0 \<le> snd (seg key i) \<and> snd (seg key i) \<le> int (length key)))"

text \<open>
  The segmenter contract along one key, as the data model states it: the segments are
  nonempty and consecutive, the next start is the length consumed so far, \<open>-1\<close> comes
  with the last segment, and the call after it returns the empty segment.
  \<open>segments_of seg key segs\<close>: the contract holds on \<open>key\<close> and \<open>segs\<close> are its segments.
\<close>

inductive segmented :: "StringSegmenter \<Rightarrow> string \<Rightarrow> string \<Rightarrow> string \<Rightarrow> int \<Rightarrow> string list \<Rightarrow> bool" where
  final: "part \<noteq> [] \<Longrightarrow> consumed @ part = key \<Longrightarrow> fst (seg key (- 1)) = [] \<Longrightarrow>
          segmented seg key consumed part (- 1) [part]"
| more: "part \<noteq> [] \<Longrightarrow> 0 \<le> i \<Longrightarrow> i \<le> int (length key) \<Longrightarrow> take (nat i) key = consumed @ part \<Longrightarrow>
         segmented seg key (consumed @ part) (fst (seg key i)) (snd (seg key i)) segs \<Longrightarrow>
         segmented seg key consumed part i (part # segs)"

definition segments_of :: "StringSegmenter \<Rightarrow> string \<Rightarrow> string list \<Rightarrow> bool" where
  "segments_of seg key segs =
     ((fst (seg key 0) = [] \<and> segs = []) \<or>
      segmented seg key [] (fst (seg key 0)) (snd (seg key 0)) segs)"

text \<open>
  The visits of a path traversal as the specification words them: each value-holding
  node on the chain from \<open>node\<close> along \<open>segs\<close>, in root-to-leaf order, with the part of
  the key consumed so far; the chain ends where a child is missing.
\<close>

fun chain_visits :: "'a PathTrie \<Rightarrow> string \<Rightarrow> string list \<Rightarrow> (string \<times> 'a) list" where
  "chain_visits node consumed [] = (case Value node of None \<Rightarrow> [] | Some x \<Rightarrow> [(consumed, x)])"
| "chain_visits node consumed (part # rest) =
     (case Value node of None \<Rightarrow> [] | Some x \<Rightarrow> [(consumed, x)]) @
     (case map_of (Children node) part of
        None \<Rightarrow> []
      | Some child \<Rightarrow> chain_visits child (consumed @ part) rest)"

section \<open>RecursiveDirectChildren\<close>

text \<open>
  \<open>RecursiveDirectChildren\<close> builds the map \<open>children\<close> while ranging over the children
  of the node: a child with a value is stored under its own key, a child without one
  contributes the entries of its own result, each under the child's key followed by the
  entry's key. The tree is only read.
\<close>

fun RecursiveDirectChildren :: "'a PathTrie \<Rightarrow> (string \<times> 'a PathTrie) list"
  and RecursiveDirectChildren_range ::
    "(string \<times> 'a PathTrie) list \<Rightarrow> (string \<times> 'a PathTrie) list \<Rightarrow> (string \<times> 'a PathTrie) list" where
  "RecursiveDirectChildren (PathTrie v cs) = RecursiveDirectChildren_range cs []"
| "RecursiveDirectChildren_range [] children = children"
| "RecursiveDirectChildren_range ((part, child) # rest) children =
     (if Value child \<noteq> None
      then RecursiveDirectChildren_range rest (AList.update part child children)
      else RecursiveDirectChildren_range rest
             (fold (\<lambda>(cPart, cChild). AList.update (part @ cPart) cChild)
                (RecursiveDirectChildren child) children))"

text \<open>
  The specification's "nearest value-bearing descendant along a branch", as a property of
  a segment path: the path is not empty, it leads to a node with a value, and every node
  strictly between its two ends has none.
\<close>

fun nearest :: "'a PathTrie \<Rightarrow> string list \<Rightarrow> bool" where
  "nearest t [] = False"
| "nearest t (part # rest) =
     (case map_of (Children t) part of
        None \<Rightarrow> False
      | Some child \<Rightarrow> if rest = [] then Value child \<noteq> None
                     else Value child = None \<and> nearest child rest)"

section \<open>Delete\<close>

text \<open>
  Modelled from the spec: \<open>Delete\<close> is declared in the interface \<open>Trier\<close>, and no source
  file implements it for \<open>PathTrie\<close>. The model follows the contract of the specification:
  walk to the terminal node of the key; if it does not exist, return false and change
  nothing; otherwise clear its value; a node left without value and without children is
  removed from the map of its parent, and so on upwards, the root excepted; the result is
  true iff a value was removed. \<open>Delete_loop\<close> returns \<open>None\<close> when the terminal node does
  not exist, else the rebuilt node and whether a value was removed.
\<close>

function Delete_loop ::
  "StringSegmenter \<Rightarrow> string \<Rightarrow> 'a PathTrie \<Rightarrow> string \<Rightarrow> int \<Rightarrow> ('a PathTrie \<times> bool) option" where
  "Delete_loop seg key node part i =
     (if part = [] then Some (PathTrie None (Children node), Value node \<noteq> None)
      else (case map_of (Children node) part of
              None \<Rightarrow> None
            | Some child \<Rightarrow>
                (case Delete_loop seg key child (fst (seg key i)) (snd (seg key i)) of
                   None \<Rightarrow> None
                 | Some (child', removed) \<Rightarrow>
                     Some (PathTrie (Value node)
                             (if Value child' = None \<and> Children child' = []
                              then AList.delete part (Children node)
                              else AList.update part child' (Children node)),
                           removed))))"
  by pat_completeness auto
termination
  by (relation "measure (\<lambda>(seg, key, node, part, i). size node)") (auto simp: size_child_less)

declare Delete_loop.simps [simp del]

definition Delete :: "StringSegmenter \<Rightarrow> 'a PathTrie \<Rightarrow> string \<Rightarrow> 'a PathTrie \<times> bool" where
  "Delete seg trie key =
     (case Delete_loop seg key trie (fst (seg key 0)) (snd (seg key 0)) of
        None \<Rightarrow> (trie, False)
      | Some (trie', removed) \<Rightarrow> (trie', removed))"

text \<open>
  The pruning invariant of the data model: no node but the root is without a value and
  without children.
\<close>

fun pruned_node :: "'a PathTrie \<Rightarrow> bool" where
  "pruned_node (PathTrie v cs) = ((v \<noteq> None \<or> cs \<noteq> []) \<and> (\<forall>c \<in> set (map snd cs). pruned_node c))"

definition pruned :: "'a PathTrie \<Rightarrow> bool" where
  "pruned trie = (\<forall>c \<in> set (map snd (Children trie)). pruned_node c)"

section \<open>Merge\<close>

text \<open>
  \<open>Merge\<close> ranges over the children of the node while it changes that very map. The
  model takes the keys that are in the map when the loop starts, in the order of the
  list, and reads the entry of each key from the map as it is at that moment (an entry
  may have been overwritten by then). For each entry the child is merged first; a child
  left without a value has its own children stored in the map under the concatenated
  keys and is deleted. Entries created during the loop are not produced by the
  iteration, which Go permits. The recursive call is made on a node read from the
  changing map, so the recursion is not structural: \<open>Merge_fuel\<close> carries a bound on the
  depth of the calls and returns \<open>None\<close> when it is used up, and \<open>Merge\<close> starts with
  the height of the trie, which is enough (lemma \<open>Merge_returns\<close>).
\<close>

fun height :: "'a PathTrie \<Rightarrow> nat" where
  "height (PathTrie v cs) = Suc (foldr max (map (\<lambda>(part, child). height child) cs) 0)"

fun Merge_fuel :: "nat \<Rightarrow> 'a PathTrie \<Rightarrow> 'a PathTrie option"
  and Merge_range :: "nat \<Rightarrow> string list \<Rightarrow> (string \<times> 'a PathTrie) list \<Rightarrow> (string \<times> 'a PathTrie) list option" where
  "Merge_fuel 0 trie = None"
| "Merge_fuel (Suc n) trie =
     map_option (PathTrie (Value trie)) (Merge_range n (map fst (Children trie)) (Children trie))"
| "Merge_range n [] children = Some children"
| "Merge_range n (part # rest) children =
     (case map_of children part of
        None \<Rightarrow> Merge_range n rest children
      | Some child \<Rightarrow>
          (case Merge_fuel n child of
             None \<Rightarrow> None
           | Some child' \<Rightarrow>
               (if Value child' = None
                then Merge_range n rest
                       (AList.delete part
                          (fold (\<lambda>(cPart, cChild). AList.update (part @ cPart) cChild)
                             (Children child') (AList.update part child' children)))
                else Merge_range n rest (AList.update part child' children))))"

definition Merge :: "'a PathTrie \<Rightarrow> 'a PathTrie option" where
  "Merge trie = Merge_fuel (height trie) trie"

text \<open>
  Two properties of a trie used to state what \<open>Merge\<close> keeps. \<open>unambiguous\<close>: different
  segment paths to nodes concatenate to different strings, as they do when the segments
  are those of the default segmenter. \<open>valued_path\<close>: every node on the path, below the
  node it starts from, holds a value.
\<close>

definition unambiguous :: "'a PathTrie \<Rightarrow> bool" where
  "unambiguous trie = inj_on concat {p. node_at trie p \<noteq> None}"

fun valued_path :: "'a PathTrie \<Rightarrow> string list \<Rightarrow> bool" where
  "valued_path t [] = True"
| "valued_path t (part # rest) =
     (case map_of (Children t) part of
        None \<Rightarrow> False
      | Some child \<Rightarrow> Value child \<noteq> None \<and> valued_path child rest)"

text \<open>
  Every node below the given one holds a value: the shape of a node that \<open>Merge\<close> has
  been through.
\<close>

fun all_valued :: "'a PathTrie \<Rightarrow> bool" where
  "all_valued (PathTrie v cs) = (\<forall>c \<in> set (map snd cs). Value c \<noteq> None \<and> all_valued c)"

section \<open>Keys made of path segments\<close>

text \<open>
  The shape of the segments that \<open>PathSegmenter\<close> returns: a segment is not empty and has
  no slash after its first character, and every segment but the first of a key starts
  with a slash. \<open>path_keyed\<close>: the keys of the children of the root are such segments and
  the keys of all deeper children such later segments, as in a trie that only \<open>Put\<close> with
  the default segmenter has written to.
\<close>

definition segment_shape :: "string \<Rightarrow> bool" where
  "segment_shape s = (s \<noteq> [] \<and> CHR ''/'' \<notin> set (tl s))"

definition later_shape :: "string \<Rightarrow> bool" where
  "later_shape s = (segment_shape s \<and> hd s = CHR ''/'')"

fun path_keyed_below :: "'a PathTrie \<Rightarrow> bool" where
  "path_keyed_below (PathTrie v cs) =
     (\<forall>kc \<in> set cs. later_shape (fst kc) \<and> path_keyed_below (snd kc))"

definition path_keyed :: "'a PathTrie \<Rightarrow> bool" where
  "path_keyed trie =
     (\<forall>kc \<in> set (Children trie). segment_shape (fst kc) \<and> path_keyed_below (snd kc))"

section \<open>Properties of the segmenter\<close>

lemma IndexRune_Some: "IndexRune xs c = Some e \<Longrightarrow> e < length xs"
  by (induction xs arbitrary: e) (auto split: if_splits)

lemma PathSegmenter_exhausted: "PathSegmenter key (- 1) = ([], - 1)"
  by (simp add: PathSegmenter_def)

lemma PathSegmenter_stops:
  "seg_stops PathSegmenter key (fst (PathSegmenter key i)) (snd (PathSegmenter key i))"
proof (induction "length key - nat i" arbitrary: i rule: less_induct)
  case less
  show ?case
  proof (cases "length key = 0 \<or> i < 0 \<or> i > int (length key) - 1")
    case True
    then show ?thesis by (simp add: PathSegmenter_def seg_stops.stop)
  next
    case False
    show ?thesis
    proof (cases "IndexRune (drop (nat i + 1) key) CHR ''/''")
      case None
      have p: "PathSegmenter key i = (drop (nat i) key, - 1)"
        using None False by (simp add: PathSegmenter_def)
      have ne: "drop (nat i) key \<noteq> []" using False by auto
      show ?thesis unfolding p fst_conv snd_conv
        by (rule seg_stops.step[OF ne]) (simp add: PathSegmenter_exhausted seg_stops.stop)
    next
      case (Some e)
      have p: "PathSegmenter key i = (take (e + 1) (drop (nat i) key), i + int e + 1)"
        using Some False by (simp add: PathSegmenter_def)
      have ne: "take (e + 1) (drop (nat i) key) \<noteq> []" using False by auto
      from False Some have "length key - nat (i + int e + 1) < length key - nat i" by auto
      from less[OF this] show ?thesis unfolding p fst_conv snd_conv
        by (rule seg_stops.step[OF ne])
    qed
  qed
qed

lemma PathSegmenter_terminates: "terminates_on PathSegmenter key"
  unfolding terminates_on_def by (rule PathSegmenter_stops)

section \<open>Put followed by Get\<close>

lemma Put_loop_Get_loop:
  "seg_stops seg key part i \<Longrightarrow>
     \<exists>t'. Put_loop seg key v node part i = Some t' \<and> Get_loop seg z key t' part i = Inr v"
proof (induction arbitrary: node rule: seg_stops.induct)
  case (stop seg key i)
  then show ?case by (subst Put_loop.simps) simp
next
  case (step part seg key i)
  let ?c = "(case map_of (Children node) part of None \<Rightarrow> newPathTrie | Some child \<Rightarrow> child)"
  from step.IH[of ?c] obtain c' where
    c: "Put_loop seg key v ?c (fst (seg key i)) (snd (seg key i)) = Some c'"
       "Get_loop seg z key c' (fst (seg key i)) (snd (seg key i)) = Inr v" by blast
  show ?case
    apply (subst Put_loop.simps)
    using step.hyps(1) c by (simp add: update_conv')
qed

text \<open>
  C1. For every trie, key \<open>k\<close> and value \<open>v\<close>, with a segmenter that reaches the empty
  segment on \<open>k\<close> (the termination contract of segmenters): \<open>Put(k, v)\<close> returns, and
  \<open>Get(k)\<close> on the trie it leaves returns \<open>v\<close>.
\<close>

theorem Put_then_Get:
  "terminates_on seg key \<Longrightarrow>
     \<exists>t'. Put seg trie key v = Some t' \<and> Get seg zero t' key = Inr v"
  unfolding terminates_on_def Put_def Get_def by (rule Put_loop_Get_loop)

theorem Put_then_Get_witness:
  "terminates_on PathSegmenter ''/a/b'' \<and>
   (\<exists>t'. Put PathSegmenter (NewPathTrie :: int PathTrie) ''/a/b'' 7 = Some t' \<and>
         Get PathSegmenter 0 t' ''/a/b'' = Inr 7)"
  using Put_then_Get [of PathSegmenter "''/a/b''" NewPathTrie "7::int" 0]
        PathSegmenter_terminates [of "''/a/b''"]
  by simp

section \<open>Get on a node without a value\<close>

lemma Get_missing_child:
  "part \<noteq> [] \<Longrightarrow> map_of (Children node) part = None \<Longrightarrow>
     Get_loop seg zero key node part i = Inr zero"
  by simp

text \<open>
  C2. \<open>Get\<close> is meant to return the zero value at a node without a value. On a freshly
  constructed trie, \<open>Get("")\<close> consumes no segment, stays at the root and dereferences
  its nil \<open>Value\<close>: the call panics.
\<close>

theorem Get_fresh_root_panics:
  "Get PathSegmenter (0::int) NewPathTrie [] = Inl NilDereference"
  by (simp add: Get_def PathSegmenter_def NewPathTrie_def)

text \<open>
  C10. \<open>Put\<close> of one key should leave \<open>Get\<close> of every other key as it was. On a fresh
  trie \<open>Get("/a")\<close> returns the zero value; after \<open>Put("/a/b", 1)\<close> the node for
  \<open>/a\<close> exists without a value and \<open>Get("/a")\<close> panics on its nil \<open>Value\<close>.
\<close>

theorem Put_changes_Get_of_prefix:
  "Get PathSegmenter (0::int) NewPathTrie ''/a'' = Inr 0 \<and>
   Put PathSegmenter NewPathTrie ''/a/b'' (1::int)
     = Some (PathTrie None [(''/a'', PathTrie None [(''/b'', PathTrie (Some 1) [])])]) \<and>
   Get PathSegmenter (0::int)
     (PathTrie None [(''/a'', PathTrie None [(''/b'', PathTrie (Some 1) [])])]) ''/a''
     = Inl NilDereference"
  by (simp add: Get_def Put_def Put_loop.simps PathSegmenter_def NewPathTrie_def newPathTrie_def)

section \<open>Walk visits every stored value once\<close>

lemma run_walker_append:
  "run_walker w (xs @ ys) s =
     (case run_walker w xs s of (Some err, s') \<Rightarrow> (Some err, s') | (None, s') \<Rightarrow> run_walker w ys s')"
  by (induction xs arbitrary: s) (auto split: prod.splits option.splits)

lemma walk_run:
  "walk t key w s = run_walker w (visits t key) s"
  "walk_range cs key w s = run_walker w (visits_range cs key) s"
proof (induction t key w s and cs key w s rule: walk_walk_range.induct)
  case (4 part child rest key walker s)
  then show ?case by (auto simp: run_walker_append split: prod.splits option.splits)
qed (auto split: prod.splits option.splits)

lemma value_at_Nil [simp]: "value_at t [] = Value t"
  by (simp add: value_at_def)

lemma value_at_Cons:
  "value_at t (part # p) = (case map_of (Children t) part of None \<Rightarrow> None | Some c \<Rightarrow> value_at c p)"
  by (simp add: value_at_def split: option.splits)

lemma visits_paths:
  "is_map (t :: 'a PathTrie) \<Longrightarrow> visits t key = map (\<lambda>p. (key @ concat p, the (value_at t p))) (paths t)"
  "(\<forall>c \<in> set (map snd (cs :: (string \<times> 'a PathTrie) list)). is_map c) \<Longrightarrow> set cs \<subseteq> set full \<Longrightarrow> distinct (map fst full) \<Longrightarrow>
     visits_range cs key = map (\<lambda>p. (key @ concat p, the (value_at (PathTrie v full) p))) (paths_range cs)"
proof (induction t key and cs key arbitrary: and full v rule: visits_visits_range.induct)
  case (1 v cs key)
  from 1(2) have "\<forall>c \<in> set (map snd cs). is_map c" "distinct (map fst cs)" by auto
  from 1(1)[OF this(1) subset_refl this(2), of v] show ?case
    by (auto split: option.splits simp: value_at_Cons)
next
  case (2 key)
  then show ?case by simp
next
  case (3 part child rest key)
  from 3(4,5) have m: "map_of full part = Some child" by auto
  from 3 m show ?case by (auto simp: value_at_Cons)
qed

lemma paths_set:
  "is_map (t :: 'a PathTrie) \<Longrightarrow> set (paths t) = {p. value_at t p \<noteq> None}"
  "(\<forall>c \<in> set (map snd (cs :: (string \<times> 'a PathTrie) list)). is_map c) \<Longrightarrow> distinct (map fst cs) \<Longrightarrow>
     set (paths_range cs) = {p. \<exists>part q c. p = part # q \<and> map_of cs part = Some c \<and> value_at c q \<noteq> None}"
proof (induction t and cs rule: paths_paths_range.induct)
  case (1 v cs)
  then have "set (paths_range cs) = {p. \<exists>part q c. p = part # q \<and> map_of cs part = Some c \<and> value_at c q \<noteq> None}"
    by auto
  moreover have "{p. value_at (PathTrie v cs) p \<noteq> None} =
     (if v = None then {} else {[]}) \<union> {p. \<exists>part q c. p = part # q \<and> map_of cs part = Some c \<and> value_at c q \<noteq> None}"
  proof -
    have "\<And>p. value_at (PathTrie v cs) p \<noteq> None \<longleftrightarrow>
       (p = [] \<and> v \<noteq> None) \<or> (\<exists>part q c. p = part # q \<and> map_of cs part = Some c \<and> value_at c q \<noteq> None)"
      subgoal for p by (cases p) (auto simp: value_at_Cons split: option.splits)
      done
    then show ?thesis by auto
  qed
  ultimately show ?case by (auto split: option.splits)
next
  case 2
  then show ?case by simp
next
  case (3 part child rest)
  then have a: "set (paths child) = {p. value_at child p \<noteq> None}"
    and b: "set (paths_range rest) = {p. \<exists>part q c. p = part # q \<and> map_of rest part = Some c \<and> value_at c q \<noteq> None}"
    and c: "part \<notin> fst ` set rest" by auto
  from c have d: "map_of rest part = None" by (simp add: map_of_eq_None_iff)
  show ?case unfolding paths_range.simps set_append a b set_map using d
    by (auto split: if_splits) (metis option.distinct(1))
qed

lemma paths_distinct:
  "is_map (t :: 'a PathTrie) \<Longrightarrow> distinct (paths t)"
  "(\<forall>c \<in> set (map snd (cs :: (string \<times> 'a PathTrie) list)). is_map c) \<Longrightarrow> distinct (map fst cs) \<Longrightarrow>
     distinct (paths_range cs) \<and> (\<forall>p \<in> set (paths_range cs). p \<noteq> [] \<and> hd p \<in> fst ` set cs)"
proof (induction t and cs rule: paths_paths_range.induct)
  case (1 v cs)
  then show ?case by (auto split: option.splits)
next
  case 2
  then show ?case by simp
next
  case (3 part child rest)
  then have r: "\<forall>p \<in> set (paths_range rest). p \<noteq> [] \<and> hd p \<in> fst ` set rest"
    and n: "part \<notin> fst ` set rest" by auto
  have "part # q \<notin> set (paths_range rest)" for q
    using r n by (metis list.sel(1))
  with 3 show ?case by (auto simp: distinct_map inj_on_def)
qed

lemma run_walker_collect: "run_walker collect xs log = (None, log @ xs)"
  by (induction xs arbitrary: log) (auto simp: collect_def)

lemma collect_apply: "collect k x log = (None, log @ [(k, x)])"
  by (simp add: collect_def)

text \<open>
  What \<open>Walk\<close> does at the nodes: with the collecting walker it returns nil, and its calls
  are one call for each path of segments that leads to a node holding a value, no path
  twice and no other call, each with the concatenation of the segments of the path as
  the key and the value stored there.
\<close>

lemma Walk_visits_each_node_once:
  "is_map t \<Longrightarrow>
     \<exists>ps. distinct ps \<and> set ps = {p. value_at t p \<noteq> None} \<and>
          Walk t collect [] = (None, map (\<lambda>p. (concat p, the (value_at t p))) ps)"
proof -
  assume m: "is_map t"
  have "Walk t collect [] = (None, map (\<lambda>p. (concat p, the (value_at t p))) (paths t))"
    by (simp add: Walk_def walk_run(1) run_walker_collect visits_paths(1)[OF m])
  with paths_distinct(1)[OF m] paths_set(1)[OF m] show ?thesis by blast
qed

lemma Walk_example:
  "Walk (PathTrie None [(''/a'', PathTrie (Some (3::int)) [(''/b'', PathTrie (Some 1) []), (''/c'', PathTrie (Some 2) [])])]) collect []
     = (None, [(''/a'', 3), (''/a/b'', 1), (''/a/c'', 2)])"
  by (simp add: Walk_def collect_def)

section \<open>WalkPath visits the chain of the key\<close>

lemma PathSegmenter_segmented:
  "0 \<le> i \<Longrightarrow> i < int (length key) \<Longrightarrow>
     \<exists>segs. segmented PathSegmenter key (take (nat i) key)
              (fst (PathSegmenter key i)) (snd (PathSegmenter key i)) segs"
proof (induction "length key - nat i" arbitrary: i rule: less_induct)
  case less
  from less(2,3) have rng: "\<not> (length key = 0 \<or> i < 0 \<or> i > int (length key) - 1)" by auto
  show ?case
  proof (cases "IndexRune (drop (nat i + 1) key) CHR ''/''")
    case None
    have p: "PathSegmenter key i = (drop (nat i) key, - 1)"
      using None rng by (simp add: PathSegmenter_def)
    have "segmented PathSegmenter key (take (nat i) key) (drop (nat i) key) (- 1) [drop (nat i) key]"
      using rng by (intro segmented.final) (auto simp: PathSegmenter_exhausted)
    then show ?thesis unfolding p by auto
  next
    case (Some e)
    let ?part = "take (e + 1) (drop (nat i) key)"
    let ?j = "i + int e + 1"
    have p: "PathSegmenter key i = (?part, ?j)"
      using Some rng by (simp add: PathSegmenter_def)
    from IndexRune_Some[OF Some] have e: "e + nat i + 1 < length key" by simp
    then have j: "0 \<le> ?j" "?j < int (length key)" using less(2) by auto
    have "length key - nat ?j < length key - nat i" using e less(2) by auto
    from less(1)[OF this j] obtain segs where
      s: "segmented PathSegmenter key (take (nat ?j) key)
            (fst (PathSegmenter key ?j)) (snd (PathSegmenter key ?j)) segs" by blast
    have t: "take (nat ?j) key = take (nat i) key @ ?part"
    proof -
      have "nat ?j = nat i + (e + 1)" using less(2) by auto
      then show ?thesis by (simp only: take_add)
    qed
    have ne: "?part \<noteq> []" using rng by auto
    have "segmented PathSegmenter key (take (nat i) key) ?part ?j (?part # segs)"
      using j t s ne by (intro segmented.more) auto
    then show ?thesis unfolding p by auto
  qed
qed

lemma PathSegmenter_segments: "\<exists>segs. segments_of PathSegmenter key segs"
proof (cases "key = []")
  case True
  then have "segments_of PathSegmenter key []" by (simp add: segments_of_def PathSegmenter_def)
  then show ?thesis ..
next
  case False
  with PathSegmenter_segmented[of 0 key] show ?thesis by (auto simp: segments_of_def)
qed

lemma segmented_concat: "segmented seg key consumed part i segs \<Longrightarrow> consumed @ concat segs = key"
  by (induction rule: segmented.induct) auto

lemma segmented_Get_loop:
  "segmented seg key consumed part i segs \<Longrightarrow>
     Get_loop seg zero key node part i =
       (case node_at node segs of
          None \<Rightarrow> Inr zero
        | Some n \<Rightarrow> (case Value n of None \<Rightarrow> Inl NilDereference | Some v \<Rightarrow> Inr v))"
proof (induction arbitrary: node rule: segmented.induct)
  case (final part consumed key seg)
  then show ?case by (auto split: option.splits)
next
  case (more part i key consumed seg segs)
  then show ?case by (auto split: option.splits)
qed

lemma segments_of_Get:
  "segments_of seg key segs \<Longrightarrow>
     Get seg zero t key =
       (case node_at t segs of
          None \<Rightarrow> Inr zero
        | Some n \<Rightarrow> (case Value n of None \<Rightarrow> Inl NilDereference | Some v \<Rightarrow> Inr v))"
  unfolding segments_of_def Get_def
  by (auto simp: segmented_Get_loop Get_loop.simps[of _ _ _ _ "[]"] simp del: Get_loop.simps)

lemma WalkPath_loop_chain:
  "segmented seg key consumed part i segs \<Longrightarrow>
     WalkPath_loop seg key collect node part i log =
       (Inr None, log @ (case map_of (Children node) part of
                           None \<Rightarrow> []
                         | Some child \<Rightarrow> chain_visits child (consumed @ part) (tl segs)))"
proof (induction arbitrary: node log rule: segmented.induct)
  case (final part consumed key seg)
  then show ?case by (auto simp: collect_apply split: option.splits)
next
  case (more part i key consumed seg segs)
  from more(5) have ne: "segs \<noteq> []" by (cases rule: segmented.cases) auto
  then obtain p ps where segs: "segs = p # ps" by (cases segs) auto
  from more(5) segs have p: "p = fst (seg key i)" by (cases rule: segmented.cases) auto
  show ?case
  proof (cases "map_of (Children node) part")
    case None
    then show ?thesis by simp
  next
    case (Some child)
    have i1: "i \<noteq> - 1" using more(2) by simp
    show ?thesis
      apply (subst WalkPath_loop.simps)
      using Some i1 more(2,3,4) segs p
      by (auto simp: more.IH collect_apply simp del: WalkPath_loop.simps split: option.splits)
  qed
qed

text \<open>
  C6. For a segmenter that keeps its contract on the key, and a root without a child
  under the empty segment, \<open>WalkPath\<close> with the collecting walker returns nil and has
  visited exactly the value-holding nodes of the chain of the key, from the root down:
  the root with the empty key, every later node with the part of the key consumed so
  far (the whole key at the last segment), ending where a child is missing.
\<close>

theorem WalkPath_visits_chain:
  "segments_of seg key segs \<Longrightarrow> map_of (Children t) [] = None \<Longrightarrow>
     WalkPath seg t key collect [] = (Inr None, chain_visits t [] segs)"
proof -
  assume s: "segments_of seg key segs" and e: "map_of (Children t) [] = None"
  show ?thesis
  proof (cases "fst (seg key 0) = [] \<and> segs = []")
    case True
    with e show ?thesis by (auto simp: WalkPath_def collect_apply split: option.splits)
  next
    case False
    with s have sg: "segmented seg key [] (fst (seg key 0)) (snd (seg key 0)) segs"
      by (auto simp: segments_of_def)
    then obtain ps where segs: "segs = fst (seg key 0) # ps" by (cases rule: segmented.cases) auto
    have loop: "WalkPath_loop seg key collect t (fst (seg key 0)) (snd (seg key 0)) log =
       (Inr None, log @ (case map_of (Children t) (fst (seg key 0)) of
                           None \<Rightarrow> []
                         | Some child \<Rightarrow> chain_visits child (fst (seg key 0)) ps))" for log
      using WalkPath_loop_chain[OF sg, of t log] unfolding segs
      by (simp del: WalkPath_loop.simps cong: option.case_cong)
    show ?thesis unfolding WalkPath_def segs
      by (simp add: loop collect_apply del: WalkPath_loop.simps split: option.splits)
  qed
qed

lemma segments_abc: "segments_of PathSegmenter ''/a/b/c'' [''/a'', ''/b'', ''/c'']"
  unfolding segments_of_def
  apply (rule disjI2)
  apply (simp add: PathSegmenter_def)
  apply (rule segmented.more; simp add: PathSegmenter_def)
  apply (rule segmented.more; simp add: PathSegmenter_def)
  apply (rule segmented.final; simp add: PathSegmenter_def)
  done

theorem WalkPath_visits_chain_witness:
  "segments_of PathSegmenter ''/a/b/c'' [''/a'', ''/b'', ''/c''] \<and>
   map_of (Children (PathTrie None
     [(''/a'', PathTrie (Some (1::int)) [(''/b'', PathTrie None [(''/c'', PathTrie (Some 3) [])])])])) [] = None \<and>
   WalkPath PathSegmenter (PathTrie None
     [(''/a'', PathTrie (Some (1::int)) [(''/b'', PathTrie None [(''/c'', PathTrie (Some 3) [])])])])
     ''/a/b/c'' collect [] = (Inr None, [(''/a'', 1), (''/a/b/c'', 3)])"
  using WalkPath_visits_chain [OF segments_abc, of "PathTrie None
     [(''/a'', PathTrie (Some (1::int)) [(''/b'', PathTrie None [(''/c'', PathTrie (Some 3) [])])])]"]
    segments_abc
  by simp

section \<open>An error of the walker ends the traversal\<close>

lemma recording_apply:
  "recording w k x (log, s) = (case w k x s of (r, s') \<Rightarrow> (r, (log @ [(k, x, r)], s')))"
  by (simp add: recording_def)

lemma ends_at_first_error_Cons:
  "ends_at_first_error r log \<Longrightarrow> ends_at_first_error r ((k, x, None) # log)"
  by (auto simp: ends_at_first_error_def)

lemma run_walker_recording_ex:
  "\<exists>r new s'. run_walker (recording w) xs (log, s) = (r, (log @ new, s')) \<and> ends_at_first_error r new"
proof (induction xs arbitrary: log s)
  case Nil
  show ?case by (simp add: ends_at_first_error_def)
next
  case (Cons a xs)
  obtain k x where a: "a = (k, x)" by (cases a)
  obtain r1 s1 where w: "w k x s = (r1, s1)" by (cases "w k x s")
  show ?case
  proof (cases r1)
    case None
    from Cons[of "log @ [(k, x, None)]" s1] obtain r new s' where
      "run_walker (recording w) xs (log @ [(k, x, None)], s1) = (r, ((log @ [(k, x, None)]) @ new, s'))"
      "ends_at_first_error r new" by blast
    then show ?thesis using a w None
      by (auto simp: recording_apply intro!: exI[of _ "(k, x, None) # new"] ends_at_first_error_Cons)
  next
    case (Some e)
    then show ?thesis using a w
      by (auto simp: recording_apply ends_at_first_error_def intro!: exI[of _ "[(k, x, Some e)]"])
  qed
qed

lemma WalkPath_loop_recording:
  "next_in_range seg key \<Longrightarrow> i = - 1 \<or> (0 \<le> i \<and> i \<le> int (length key)) \<Longrightarrow>
     \<exists>r new s'. WalkPath_loop seg key (recording w) trie part i (log, s) = (Inr r, (log @ new, s'))
        \<and> ends_at_first_error r new"
proof (induction seg key "recording w" trie part i "(log, s)" arbitrary: log s rule: WalkPath_loop.induct)
  case (1 seg key trie part i)
  have nxt: "snd (seg key i) = - 1 \<or> (0 \<le> snd (seg key i) \<and> snd (seg key i) \<le> int (length key))"
    using 1(3) by (auto simp: next_in_range_def)
  show ?case
  proof (cases "map_of (Children trie) part")
    case None
    then show ?thesis by (auto simp: ends_at_first_error_def)
  next
    case (Some child)
    show ?thesis
    proof (cases "Value child")
      case None
      show ?thesis
      proof (cases "i = - 1")
        case True
        with Some None show ?thesis by (auto simp: ends_at_first_error_def)
      next
        case False
        from 1(1)[OF Some None False 1(3) nxt] Some None False show ?thesis
          by simp
      qed
    next
      case (Some x)
      note vx = this
      let ?k = "if i = - 1 then key else take (nat i) key"
      obtain r1 s1 where w: "w ?k x s = (r1, s1)" by (cases "w ?k x s")
      have rng: "\<not> (i \<noteq> - 1 \<and> (i < 0 \<or> int (length key) < i))" using 1(4) by auto
      show ?thesis
      proof (cases r1)
        case (Some e)
        with w vx \<open>map_of (Children trie) part = Some child\<close> rng show ?thesis
          by (auto simp: recording_apply ends_at_first_error_def intro!: exI[of _ "[(?k, x, Some e)]"])
      next
        case None
        note r1 = this
        show ?thesis
        proof (cases "i = - 1")
          case True
          with w vx r1 \<open>map_of (Children trie) part = Some child\<close> show ?thesis
            by (auto simp: recording_apply ends_at_first_error_def intro!: exI[of _ "[(key, x, None)]"])
        next
          case False
          have rw: "recording w ?k x (log, s) = (None, (log @ [(?k, x, None)], s1))"
            using w r1 by (simp add: recording_apply)
          from 1(2)[OF \<open>map_of (Children trie) part = Some child\<close> vx rng rw[symmetric] refl False 1(3) nxt]
          obtain r new s' where
            "WalkPath_loop seg key (recording w) child (fst (seg key i)) (snd (seg key i))
               (log @ [(?k, x, None)], s1) = (Inr r, ((log @ [(?k, x, None)]) @ new, s'))"
            "ends_at_first_error r new" by blast
          with rw vx False rng \<open>map_of (Children trie) part = Some child\<close> show ?thesis
            by (auto simp del: WalkPath_loop.simps simp: WalkPath_loop.simps[of seg key "recording w" trie]
                intro!: exI[of _ "(?k, x, None) # new"] ends_at_first_error_Cons)
        qed
      qed
    qed
  qed
qed

lemma PathSegmenter_in_range: "next_in_range PathSegmenter key"
  unfolding next_in_range_def
proof
  fix i
  show "snd (PathSegmenter key i) = - 1 \<or>
        (0 \<le> snd (PathSegmenter key i) \<and> snd (PathSegmenter key i) \<le> int (length key))"
  proof (cases "IndexRune (drop (nat i + 1) key) CHR ''/''")
    case None
    then show ?thesis by (simp add: PathSegmenter_def)
  next
    case (Some e)
    from IndexRune_Some[OF Some] show ?thesis using Some
      by (auto simp: PathSegmenter_def)
  qed
qed

text \<open>
  C7. For every walker, \<open>Walk\<close> and \<open>WalkPath\<close> (with a segmenter whose next starts are
  indices into the key) return: no call of the walker but the last one returned an error,
  and the result of the traversal is what the last call returned, unchanged, so nil when
  no call returned an error.
\<close>

theorem walker_error_ends_walk:
  "next_in_range seg key \<Longrightarrow>
     (\<exists>r log s'. Walk t (recording w) ([], s) = (r, (log, s')) \<and> ends_at_first_error r log) \<and>
     (\<exists>r log s'. WalkPath seg t key (recording w) ([], s) = (Inr r, (log, s')) \<and>
        ends_at_first_error r log)"
proof
  show "\<exists>r log s'. Walk t (recording w) ([], s) = (r, (log, s')) \<and> ends_at_first_error r log"
    using run_walker_recording_ex[of w "visits t []" "[]" s] by (simp add: Walk_def walk_run(1))
next
  assume nr: "next_in_range seg key"
  then have i0: "snd (seg key 0) = - 1 \<or> (0 \<le> snd (seg key 0) \<and> snd (seg key 0) \<le> int (length key))"
    by (auto simp: next_in_range_def)
  show "\<exists>r log s'. WalkPath seg t key (recording w) ([], s) = (Inr r, (log, s')) \<and>
        ends_at_first_error r log"
  proof (cases "Value t")
    case None
    with WalkPath_loop_recording[OF nr i0, of w t "fst (seg key 0)" "[]" s] show ?thesis
      by (simp add: WalkPath_def del: WalkPath_loop.simps)
  next
    case (Some x)
    obtain r1 s1 where w: "w [] x s = (r1, s1)" by (cases "w [] x s")
    show ?thesis
    proof (cases r1)
      case None
      from WalkPath_loop_recording[OF nr i0, of w t "fst (seg key 0)" "[([], x, None)]" s1]
      obtain r new s' where
        "WalkPath_loop seg key (recording w) t (fst (seg key 0)) (snd (seg key 0)) ([([], x, None)], s1)
           = (Inr r, ([([], x, None)] @ new, s'))" "ends_at_first_error r new" by blast
      with Some w None show ?thesis
        by (auto simp: WalkPath_def recording_apply simp del: WalkPath_loop.simps
            intro!: ends_at_first_error_Cons)
    next
      case (Some e)
      with \<open>Value t = Some x\<close> w show ?thesis
        by (auto simp: WalkPath_def recording_apply ends_at_first_error_def simp del: WalkPath_loop.simps)
    qed
  qed
qed

theorem walker_error_ends_walk_witness:
  "next_in_range PathSegmenter ''/a/b'' \<and>
     (\<exists>r log s'. Walk (PathTrie None [(''/a'', PathTrie (Some (3::int)) [(''/b'', PathTrie (Some 1) [])])])
         (recording (\<lambda>k x s. (if x = 1 then Some ''stop'' else None, s + x))) ([], 0) = (r, (log, s')) \<and> ends_at_first_error r log) \<and>
     (\<exists>r log s'. WalkPath PathSegmenter (PathTrie None [(''/a'', PathTrie (Some (3::int)) [(''/b'', PathTrie (Some 1) [])])])
         ''/a/b'' (recording (\<lambda>k x s. (if x = 1 then Some ''stop'' else None, s + x))) ([], 0) = (Inr r, (log, s')) \<and>
        ends_at_first_error r log)"
  using walker_error_ends_walk [of PathSegmenter "''/a/b''"
      "PathTrie None [(''/a'', PathTrie (Some (3::int)) [(''/b'', PathTrie (Some 1) [])])]"
      "(\<lambda>k x s. (if x = 1 then Some ''stop'' else None, s + x))" "0::int"]
    PathSegmenter_in_range [of "''/a/b''"]
  by blast

section \<open>RecursiveDirectChildren returns the nearest value-bearing descendants\<close>

lemma set_update_subset: "set (AList.update k v al) \<subseteq> insert (k, v) (set al)"
  by (induction al) auto

lemma fold_update_set:
  "set (fold (\<lambda>(cPart, cChild). AList.update (part @ cPart) cChild) xs acc)
     \<subseteq> set acc \<union> (\<lambda>(cPart, cChild). (part @ cPart, cChild)) ` set xs"
proof (induction xs arbitrary: acc)
  case Nil
  show ?case by simp
next
  case (Cons x xs)
  obtain a b where x: "x = (a, b)" by (cases x)
  show ?case using Cons[of "AList.update (part @ a) b acc"] set_update_subset[of "part @ a" b acc]
    unfolding x by auto
qed

lemma fold_update_keys:
  "fst ` set (fold (\<lambda>(cPart, cChild). AList.update (part @ cPart) cChild) xs acc)
     = fst ` set acc \<union> (\<lambda>cPart. part @ cPart) ` fst ` set xs"
proof (induction xs arbitrary: acc)
  case Nil
  show ?case by simp
next
  case (Cons x xs)
  obtain a b where x: "x = (a, b)" by (cases x)
  show ?case unfolding x by (auto simp: Cons dom_update)
qed

lemma nearest_hd:
  "map_of full part = Some child \<Longrightarrow>
     {p. nearest (PathTrie v full) p \<and> hd p = part} =
       (if Value child \<noteq> None then {[part]} else (#) part ` {q. nearest child q})"
proof -
  assume m: "map_of full part = Some child"
  have "nearest (PathTrie v full) p \<and> hd p = part \<longleftrightarrow>
        (if Value child \<noteq> None then p = [part] else (\<exists>q. p = part # q \<and> nearest child q))" for p
  proof (cases p)
    case Nil
    then show ?thesis by auto
  next
    case (Cons a q)
    then show ?thesis using m by (cases q) (auto split: option.splits)
  qed
  then show ?thesis by (auto split: if_splits)
qed

lemma RDC_sound:
  "is_map (t :: 'a PathTrie) \<Longrightarrow>
     \<forall>(k, n) \<in> set (RecursiveDirectChildren t).
        \<exists>p. nearest t p \<and> concat p = k \<and> node_at t p = Some n"
  "(\<forall>c \<in> set (map snd (cs :: (string \<times> 'a PathTrie) list)). is_map c) \<Longrightarrow> set cs \<subseteq> set full \<Longrightarrow>
     distinct (map fst full) \<Longrightarrow>
     \<forall>(k, n) \<in> set (RecursiveDirectChildren_range cs acc).
        (k, n) \<in> set acc \<or>
        (\<exists>p. nearest (PathTrie v full) p \<and> concat p = k \<and> node_at (PathTrie v full) p = Some n)"
proof (induction t and cs acc arbitrary: and full v
       rule: RecursiveDirectChildren_RecursiveDirectChildren_range.induct)
  case (1 v cs)
  from 1(2) have "\<forall>c \<in> set (map snd cs). is_map c" "distinct (map fst cs)" by auto
  from 1(1)[OF this(1) subset_refl this(2), of v] show ?case by auto
next
  case (2 children)
  then show ?case by auto
next
  case (3 part child rest children)
  from 3(5,6) have m: "map_of full part = Some child" by auto
  from 3(4) have cm: "is_map child" and rm: "\<forall>c \<in> set (map snd rest). is_map c" by auto
  from 3(5) have rs: "set rest \<subseteq> set full" by auto
  show ?case
  proof (cases "Value child \<noteq> None")
    case True
    have here: "nearest (PathTrie v full) [part] \<and> concat [part] = part \<and>
                node_at (PathTrie v full) [part] = Some child"
      using m True by simp
    from 3(1)[OF True rm rs 3(6), of v] True
    have "\<forall>(k, n) \<in> set (RecursiveDirectChildren_range ((part, child) # rest) children).
            (k, n) \<in> set (AList.update part child children) \<or>
            (\<exists>p. nearest (PathTrie v full) p \<and> concat p = k \<and> node_at (PathTrie v full) p = Some n)"
      by simp
    then show ?thesis using set_update_subset[of part child children] here by fast
  next
    case False
    let ?f = "fold (\<lambda>(cPart, cChild). AList.update (part @ cPart) cChild)
                (RecursiveDirectChildren child) children"
    have below: "\<exists>p. nearest (PathTrie v full) p \<and> concat p = part @ cPart \<and>
                   node_at (PathTrie v full) p = Some cChild"
      if "(cPart, cChild) \<in> set (RecursiveDirectChildren child)" for cPart cChild
    proof -
      from 3(2)[OF False cm] that obtain q where
        q: "nearest child q" "concat q = cPart" "node_at child q = Some cChild" by fast
      from q(1) have "q \<noteq> []" by auto
      with q m False have "nearest (PathTrie v full) (part # q) \<and> concat (part # q) = part @ cPart \<and>
          node_at (PathTrie v full) (part # q) = Some cChild" by auto
      then show ?thesis by blast
    qed
    from 3(3)[OF False rm rs 3(6), of v] False
    have "\<forall>(k, n) \<in> set (RecursiveDirectChildren_range ((part, child) # rest) children).
            (k, n) \<in> set ?f \<or>
            (\<exists>p. nearest (PathTrie v full) p \<and> concat p = k \<and> node_at (PathTrie v full) p = Some n)"
      by simp
    then show ?thesis using fold_update_set[of part "RecursiveDirectChildren child" children] below
      by fast
  qed
qed

lemma nearest_hd_keys:
  "map_of full part = Some child \<Longrightarrow>
     concat ` {p. nearest (PathTrie v full) p \<and> hd p = part} =
       (if Value child \<noteq> None then {part} else (@) part ` concat ` {q. nearest child q})"
  by (simp add: nearest_hd image_image)

lemma nearest_hd_in:
  "nearest (PathTrie v full) p \<Longrightarrow> hd p \<in> fst ` set full"
  by (cases p) (auto split: option.splits dest: map_of_SomeD intro: rev_image_eqI)

lemma RDC_keys:
  "is_map (t :: 'a PathTrie) \<Longrightarrow>
     fst ` set (RecursiveDirectChildren t) = concat ` {p. nearest t p}"
  "(\<forall>c \<in> set (map snd (cs :: (string \<times> 'a PathTrie) list)). is_map c) \<Longrightarrow> set cs \<subseteq> set full \<Longrightarrow>
     distinct (map fst full) \<Longrightarrow>
     fst ` set (RecursiveDirectChildren_range cs acc) =
       fst ` set acc \<union> concat ` {p. nearest (PathTrie v full) p \<and> hd p \<in> fst ` set cs}"
proof (induction t and cs acc arbitrary: and full v
       rule: RecursiveDirectChildren_RecursiveDirectChildren_range.induct)
  case (1 v cs)
  from 1(2) have "\<forall>c \<in> set (map snd cs). is_map c" "distinct (map fst cs)" by auto
  from 1(1)[OF this(1) subset_refl this(2), of v]
  have "fst ` set (RecursiveDirectChildren (PathTrie v cs)) =
          concat ` {p. nearest (PathTrie v cs) p \<and> hd p \<in> fst ` set cs}" by simp
  also have "{p. nearest (PathTrie v cs) p \<and> hd p \<in> fst ` set cs} = {p. nearest (PathTrie v cs) p}"
    using nearest_hd_in[of v cs] by auto
  finally show ?case .
next
  case (2 children)
  then show ?case by auto
next
  case (3 part child rest children)
  from 3(5,6) have m: "map_of full part = Some child" by auto
  from 3(4) have cm: "is_map child" and rm: "\<forall>c \<in> set (map snd rest). is_map c" by auto
  from 3(5) have rs: "set rest \<subseteq> set full" by auto
  have split: "{p. nearest (PathTrie v full) p \<and> hd p \<in> fst ` set ((part, child) # rest)} =
      {p. nearest (PathTrie v full) p \<and> hd p = part} \<union>
      {p. nearest (PathTrie v full) p \<and> hd p \<in> fst ` set rest}" by auto
  show ?case
  proof (cases "Value child \<noteq> None")
    case True
    from 3(1)[OF True rm rs 3(6), of v] True show ?thesis
      unfolding split image_Un nearest_hd_keys[OF m] by (auto simp: dom_update)
  next
    case False
    from 3(3)[OF False rm rs 3(6), of v] 3(2)[OF False cm] False show ?thesis
      unfolding split image_Un nearest_hd_keys[OF m] by (auto simp: fold_update_keys)
  qed
qed

text \<open>
  What holds of \<open>RecursiveDirectChildren\<close> whatever the keys are: every entry of the result
  is the nearest value-bearing descendant on a branch, stored under the concatenation of
  the segments that lead to it, and every such descendant has its concatenated key in
  the result.
\<close>

lemma RecursiveDirectChildren_entries:
  "is_map t \<Longrightarrow>
     (\<forall>k n. map_of (RecursiveDirectChildren t) k = Some n \<longrightarrow>
        (\<exists>p. nearest t p \<and> concat p = k \<and> node_at t p = Some n)) \<and>
     (\<forall>p. nearest t p \<longrightarrow> (\<exists>n. map_of (RecursiveDirectChildren t) (concat p) = Some n))"
proof -
  assume m: "is_map t"
  have a: "\<exists>p. nearest t p \<and> concat p = k \<and> node_at t p = Some n"
    if "map_of (RecursiveDirectChildren t) k = Some n" for k n
    using RDC_sound(1)[OF m] map_of_SomeD[OF that] by fast
  have b: "\<exists>n. map_of (RecursiveDirectChildren t) (concat p) = Some n" if "nearest t p" for p
  proof -
    from that have "concat p \<in> fst ` set (RecursiveDirectChildren t)"
      unfolding RDC_keys(1)[OF m] by blast
    then show ?thesis by (metis domD dom_map_of_conv_image_fst)
  qed
  from a b show ?thesis by blast
qed

lemma RecursiveDirectChildren_example:
  "RecursiveDirectChildren (PathTrie None [(''/b'', PathTrie None [(''/c'', PathTrie (Some (1::int)) [])]), (''/x'', PathTrie (Some 2) [])])
     = [(''/b/c'', PathTrie (Some 1) []), (''/x'', PathTrie (Some 2) [])]"
  by simp

lemma nearest_example_paths:
  "nearest (PathTrie None [(''/b'', PathTrie None [(''/c'', PathTrie (Some (1::int)) [])]), (''/x'', PathTrie (Some 2) [])]) p
     \<Longrightarrow> p = [''/b'', ''/c''] \<or> p = [''/x'']"
proof (cases p)
  case Nil
  assume "nearest (PathTrie None [(''/b'', PathTrie None [(''/c'', PathTrie (Some (1::int)) [])]), (''/x'', PathTrie (Some 2) [])]) p"
  with Nil show ?thesis by simp
next
  case (Cons a q)
  assume n: "nearest (PathTrie None [(''/b'', PathTrie None [(''/c'', PathTrie (Some (1::int)) [])]), (''/x'', PathTrie (Some 2) [])]) p"
  show ?thesis
  proof (cases q)
    case Nil
    with n Cons show ?thesis by (auto split: if_splits)
  next
    case (Cons b r)
    with n \<open>p = a # q\<close> show ?thesis by (cases r) (auto split: if_splits)
  qed
qed

lemma nearest_example_inj:
  "inj_on concat {p. nearest (PathTrie None [(''/b'', PathTrie None [(''/c'', PathTrie (Some (1::int)) [])]), (''/x'', PathTrie (Some 2) [])]) p}"
  by (rule inj_onI) (auto dest!: nearest_example_paths)

section \<open>Delete of a key that holds no value\<close>

lemma update_same: "map_of al k = Some v \<Longrightarrow> AList.update k v al = al"
  by (induction al) (auto split: if_splits)

lemma pruned_child:
  "pruned node \<Longrightarrow> map_of (Children node) part = Some child \<Longrightarrow> pruned_node child"
proof -
  assume p: "pruned node" and m: "map_of (Children node) part = Some child"
  from map_of_SomeD[OF m] have "child \<in> set (map snd (Children node))" by force
  with p show ?thesis by (auto simp: pruned_def)
qed

lemma pruned_node_pruned: "pruned_node node \<Longrightarrow> pruned node"
  by (cases node) (auto simp: pruned_def)

lemma pruned_node_kept: "pruned_node child \<Longrightarrow> (Value child = None \<and> Children child = []) = False"
  by (cases child) auto

lemma Delete_loop_no_value:
  "segmented seg key consumed part i segs \<Longrightarrow> pruned node \<Longrightarrow> value_at node segs = None \<Longrightarrow>
     Delete_loop seg key node part i = None \<or> Delete_loop seg key node part i = Some (node, False)"
proof (induction arbitrary: node rule: segmented.induct)
  case (final part consumed key seg)
  show ?case
  proof (cases "map_of (Children node) part")
    case None
    with final(1) show ?thesis by (simp add: Delete_loop.simps)
  next
    case (Some child)
    from final(5) Some have v: "Value child = None" by (simp add: value_at_Cons)
    then have c: "PathTrie None (Children child) = child" by (cases child) simp
    have "Delete_loop seg key child (fst (seg key (- 1))) (snd (seg key (- 1))) = Some (child, False)"
      using final(3) v c by (simp add: Delete_loop.simps)
    with final(1) Some pruned_node_kept[OF pruned_child[OF final(4) Some]] show ?thesis
      by (auto simp: Delete_loop.simps[of seg key node] update_same)
  qed
next
  case (more part i key consumed seg segs)
  show ?case
  proof (cases "map_of (Children node) part")
    case None
    with more(1) show ?thesis by (simp add: Delete_loop.simps)
  next
    case (Some child)
    have pc: "pruned_node child" by (rule pruned_child[OF more(7) Some])
    from more(8) Some have "value_at child segs = None" by (simp add: value_at_Cons)
    from more(6)[OF pruned_node_pruned[OF pc] this] more(1) Some pruned_node_kept[OF pc] show ?thesis
      by (auto simp: Delete_loop.simps[of seg key node] update_same)
  qed
qed

text \<open>
  C8. On a trie that satisfies the pruning invariant, for a key with no value stored at
  the node its segments lead to (the node is missing or internal), \<open>Delete\<close> returns
  false and the trie it leaves is the trie it was given.
\<close>

theorem Delete_absent_key:
  "segments_of seg key segs \<Longrightarrow> pruned trie \<Longrightarrow> value_at trie segs = None \<Longrightarrow>
     Delete seg trie key = (trie, False)"
proof -
  assume s: "segments_of seg key segs" and p: "pruned trie" and v: "value_at trie segs = None"
  show ?thesis
  proof (cases "fst (seg key 0) = [] \<and> segs = []")
    case True
    with v have "Value trie = None" by simp
    then have "PathTrie None (Children trie) = trie" by (cases trie) simp
    with True \<open>Value trie = None\<close> show ?thesis by (simp add: Delete_def Delete_loop.simps)
  next
    case False
    with s have "segmented seg key [] (fst (seg key 0)) (snd (seg key 0)) segs"
      by (auto simp: segments_of_def)
    from Delete_loop_no_value[OF this p v] show ?thesis by (auto simp: Delete_def)
  qed
qed

lemma segments_a: "segments_of PathSegmenter ''/a'' [''/a'']"
  unfolding segments_of_def
  apply (rule disjI2)
  apply (simp add: PathSegmenter_def)
  apply (rule segmented.final; simp add: PathSegmenter_def)
  done

theorem Delete_absent_key_witness:
  "segments_of PathSegmenter ''/a'' [''/a''] \<and>
   pruned (PathTrie None [(''/a'', PathTrie None [(''/b'', PathTrie (Some (1::int)) [])])]) \<and>
   value_at (PathTrie None [(''/a'', PathTrie None [(''/b'', PathTrie (Some (1::int)) [])])]) [''/a''] = None \<and>
   Delete PathSegmenter (PathTrie None [(''/a'', PathTrie None [(''/b'', PathTrie (Some (1::int)) [])])]) ''/a''
     = ((PathTrie None [(''/a'', PathTrie None [(''/b'', PathTrie (Some (1::int)) [])])]), False)"
proof -
  have p: "pruned (PathTrie None [(''/a'', PathTrie None [(''/b'', PathTrie (Some (1::int)) [])])])"
    by (simp add: pruned_def)
  have v: "value_at (PathTrie None [(''/a'', PathTrie None [(''/b'', PathTrie (Some (1::int)) [])])]) [''/a''] = None"
    by (simp add: value_at_def)
  from segments_a p v Delete_absent_key [OF segments_a p v] show ?thesis by (intro conjI)
qed

section \<open>Merge and point lookups\<close>

lemma foldr_max_le: "foldr max (map f xs) 0 \<le> (m::nat) \<longleftrightarrow> (\<forall>x \<in> set xs. f x \<le> m)"
  by (induction xs) auto

lemma height_le_Suc: "height t \<le> Suc m \<longleftrightarrow> (\<forall>c \<in> snd ` set (Children t). height c \<le> m)"
  by (cases t) (auto simp: foldr_max_le)

lemma height_pos: "0 < height t"
  by (cases t) simp

lemma set_delete_subset: "set (AList.delete k al) \<subseteq> set al"
  by (induction al) auto

lemma Merge_fuel_Value: "Merge_fuel n t = Some r \<Longrightarrow> Value r = Value t"
  by (cases n) auto

lemma Merge_total:
  "height (t :: 'a PathTrie) \<le> n \<Longrightarrow> \<exists>r. Merge_fuel n t = Some r \<and> height r \<le> height t"
  "(\<forall>c \<in> snd ` set (cur :: (string \<times> 'a PathTrie) list). height c \<le> m) \<Longrightarrow> m \<le> n \<Longrightarrow>
     \<exists>r. Merge_range n pending cur = Some r \<and> (\<forall>c \<in> snd ` set r. height c \<le> m)"
proof (induction n t and n pending cur arbitrary: and m rule: Merge_fuel_Merge_range.induct)
  case (1 trie)
  then show ?case using height_pos[of trie] by simp
next
  case (2 n trie)
  obtain m where m: "height trie = Suc m" using height_pos[of trie] by (cases "height trie") auto
  with 2(2) have mn: "m \<le> n" by simp
  from m have c: "\<forall>c \<in> snd ` set (Children trie). height c \<le> m"
    using height_le_Suc[of trie m] by simp
  from 2(1)[OF c mn] obtain r where
    r: "Merge_range n (map fst (Children trie)) (Children trie) = Some r"
       "\<forall>c \<in> snd ` set r. height c \<le> m" by blast
  have "height (PathTrie (Value trie) r) \<le> Suc m"
    using r(2) height_le_Suc[of "PathTrie (Value trie) r" m] by simp
  with r(1) m show ?case by simp
next
  case (3 n children)
  then show ?case by simp
next
  case (4 n part rest children)
  show ?case
  proof (cases "map_of children part")
    case None
    from 4(1)[OF None 4(5,6)] None show ?thesis by simp
  next
    case (Some child)
    from map_of_SomeD[OF Some] have "child \<in> snd ` set children" by force
    with 4(5) have hc: "height child \<le> m" by blast
    with 4(6) have "height child \<le> n" by simp
    from 4(2)[OF Some this] obtain child' where
      c': "Merge_fuel n child = Some child'" "height child' \<le> height child" by blast
    with hc have hc': "height child' \<le> m" by simp
    have up: "\<forall>c \<in> snd ` set (AList.update part child' children). height c \<le> m"
      using set_update_subset[of part child' children] 4(5) hc' by fastforce
    show ?thesis
    proof (cases "Value child' = None")
      case True
      let ?sp = "fold (\<lambda>(cPart, cChild). AList.update (part @ cPart) cChild)
                   (Children child') (AList.update part child' children)"
      have gc: "\<forall>c \<in> snd ` set (Children child'). height c \<le> m"
      proof
        fix c assume "c \<in> snd ` set (Children child')"
        moreover obtain k where "height child' = Suc k" using height_pos[of child'] by (cases "height child'") auto
        ultimately show "height c \<le> m" using height_le_Suc[of child' k] hc' by auto
      qed
      have "\<forall>c \<in> snd ` set ?sp. height c \<le> m"
        using fold_update_set[of part "Children child'" "AList.update part child' children"] up gc
        by fastforce
      then have "\<forall>c \<in> snd ` set (AList.delete part ?sp). height c \<le> m"
        using set_delete_subset[of part ?sp] by fastforce
      from 4(3)[OF Some c'(1) True this 4(6)] Some c'(1) True show ?thesis by simp
    next
      case False
      from 4(4)[OF Some c'(1) False up 4(6)] Some c'(1) False show ?thesis by auto
    qed
  qed
qed

lemma Merge_returns: "\<exists>r. Merge t = Some r"
  using Merge_total(1)[of t "height t"] by (auto simp: Merge_def)

lemma map_of_fold_splice_other:
  "k \<notin> (\<lambda>a. part @ a) ` fst ` set xs \<Longrightarrow>
     map_of (fold (\<lambda>(cPart, cChild). AList.update (part @ cPart) cChild) xs acc) k = map_of acc k"
proof (induction xs arbitrary: acc)
  case Nil
  show ?case by simp
next
  case (Cons x xs)
  obtain a b where x: "x = (a, b)" by (cases x)
  from Cons(2) x have ne: "k \<noteq> part @ a" and rest: "k \<notin> (\<lambda>a. part @ a) ` fst ` set xs" by auto
  show ?case unfolding x using Cons(1)[OF rest, of "AList.update (part @ a) b acc"] ne
    by (simp add: update_conv')
qed

lemma node_at_Cons:
  "map_of (Children t) part = Some c \<Longrightarrow> node_at t (part # q) = node_at c q"
  by simp

lemma unambiguous_child:
  "unambiguous t \<Longrightarrow> map_of (Children t) part = Some c \<Longrightarrow> unambiguous c"
proof -
  assume u: "unambiguous t" and m: "map_of (Children t) part = Some c"
  show "unambiguous c" unfolding unambiguous_def
  proof (rule inj_onI)
    fix p q assume p: "p \<in> {p. node_at c p \<noteq> None}" and q: "q \<in> {p. node_at c p \<noteq> None}"
      and e: "concat p = concat q"
    from p q m have "part # p \<in> {p. node_at t p \<noteq> None}" "part # q \<in> {p. node_at t p \<noteq> None}"
      by auto
    moreover from e have "concat (part # p) = concat (part # q)" by simp
    ultimately have "part # p = part # q" using u unfolding unambiguous_def by (meson inj_onD)
    then show "p = q" by simp
  qed
qed

lemma is_map_child: "is_map t \<Longrightarrow> map_of (Children t) part = Some c \<Longrightarrow> is_map c"
  by (cases t) (auto dest!: map_of_SomeD)

lemma unambiguous_key_not_spliced:
  "unambiguous t \<Longrightarrow> map_of (Children t) k \<noteq> None \<Longrightarrow> node_at t (part # q) \<noteq> None \<Longrightarrow> q \<noteq> [] \<Longrightarrow>
     k \<noteq> part @ concat q"
proof
  assume u: "unambiguous t" and k: "map_of (Children t) k \<noteq> None"
    and n: "node_at t (part # q) \<noteq> None" and q: "q \<noteq> []" and e: "k = part @ concat q"
  from k have "[k] \<in> {p. node_at t p \<noteq> None}" by (auto split: option.splits)
  moreover from n have "part # q \<in> {p. node_at t p \<noteq> None}" by simp
  moreover from e have "concat [k] = concat (part # q)" by simp
  ultimately have "[k] = part # q" using u unfolding unambiguous_def by (meson inj_onD)
  with q show False by simp
qed

lemma is_map_distinct: "is_map t \<Longrightarrow> distinct (map fst (Children t))"
  by (cases t) simp

lemma key_is_path:
  "k \<in> fst ` set (Children t) \<Longrightarrow> \<exists>p. p \<noteq> [] \<and> node_at t p \<noteq> None \<and> concat p = k"
proof -
  assume "k \<in> fst ` set (Children t)"
  then have "map_of (Children t) k \<noteq> None" by (simp add: map_of_eq_None_iff)
  then have "[k] \<noteq> [] \<and> node_at t [k] \<noteq> None \<and> concat [k] = k" by (auto split: option.splits)
  then show ?thesis by blast
qed

lemma Merge_keeps:
  "is_map (t :: 'a PathTrie) \<Longrightarrow> unambiguous t \<Longrightarrow> Merge_fuel n t = Some r \<Longrightarrow>
     (\<forall>k \<in> fst ` set (Children r). \<exists>p. p \<noteq> [] \<and> node_at t p \<noteq> None \<and> concat p = k) \<and>
     (\<forall>s c. map_of (Children t) s = Some c \<longrightarrow> Value c \<noteq> None \<longrightarrow>
        (\<exists>m c'. map_of (Children r) s = Some c' \<and> Merge_fuel m c = Some c'))"
  "is_map (T :: 'a PathTrie) \<Longrightarrow> unambiguous T \<Longrightarrow> distinct pending \<Longrightarrow>
     set pending \<subseteq> fst ` set (Children T) \<Longrightarrow>
     (\<forall>k \<in> set pending. map_of cur k = map_of (Children T) k) \<Longrightarrow>
     (\<forall>s c. s \<notin> set pending \<longrightarrow> map_of (Children T) s = Some c \<longrightarrow> Value c \<noteq> None \<longrightarrow>
        (\<exists>m c'. map_of cur s = Some c' \<and> Merge_fuel m c = Some c')) \<Longrightarrow>
     (\<forall>k \<in> fst ` set cur. \<exists>p. p \<noteq> [] \<and> node_at T p \<noteq> None \<and> concat p = k) \<Longrightarrow>
     Merge_range n pending cur = Some rs \<Longrightarrow>
     (\<forall>k \<in> fst ` set rs. \<exists>p. p \<noteq> [] \<and> node_at T p \<noteq> None \<and> concat p = k) \<and>
     (\<forall>s c. map_of (Children T) s = Some c \<longrightarrow> Value c \<noteq> None \<longrightarrow>
        (\<exists>m c'. map_of rs s = Some c' \<and> Merge_fuel m c = Some c'))"
proof (induction n t and n pending cur arbitrary: r and T rs rule: Merge_fuel_Merge_range.induct)
  case (1 trie)
  then show ?case by simp
next
  case (2 n trie)
  from 2(4) obtain r0 where
    r0: "Merge_range n (map fst (Children trie)) (Children trie) = Some r0"
    and r: "r = PathTrie (Value trie) r0" by auto
  have ii: "\<forall>s c. s \<notin> set (map fst (Children trie)) \<longrightarrow> map_of (Children trie) s = Some c \<longrightarrow>
      Value c \<noteq> None \<longrightarrow> (\<exists>m c'. map_of (Children trie) s = Some c' \<and> Merge_fuel m c = Some c')"
    by (auto dest!: map_of_SomeD intro: rev_image_eqI)
  have iii: "\<forall>k \<in> fst ` set (Children trie). \<exists>p. p \<noteq> [] \<and> node_at trie p \<noteq> None \<and> concat p = k"
    using key_is_path[of _ trie] by blast
  from 2(1)[OF 2(2,3) is_map_distinct[OF 2(2)] _ _ ii iii r0] show ?case
    unfolding r by simp
next
  case (3 n children)
  then show ?case by simp
next
  case (4 n part rest children)
  note im = 4(5) and un = 4(6)
  from 4(7) have pr: "part \<notin> set rest" and dr: "distinct rest" by auto
  from 4(8) have sr: "set rest \<subseteq> fst ` set (Children T)" and pk: "part \<in> fst ` set (Children T)" by auto
  from pk obtain c where c: "map_of (Children T) part = Some c"
    by (metis map_of_eq_None_iff not_None_eq)
  with 4(9) have cur: "map_of children part = Some c" by simp
  from 4(12) cur obtain c' where c': "Merge_fuel n c = Some c'"
    by (auto split: option.splits)
  have vc: "Value c' = Value c" by (rule Merge_fuel_Value[OF c'])
  from 4(2)[OF cur is_map_child[OF im c] unambiguous_child[OF un c] c']
  have ck: "\<forall>k \<in> fst ` set (Children c'). \<exists>p. p \<noteq> [] \<and> node_at c p \<noteq> None \<and> concat p = k"
    by blast
  show ?case
  proof (cases "Value c' = None")
    case False
    let ?cur = "AList.update part c' children"
    have i: "\<forall>k \<in> set rest. map_of ?cur k = map_of (Children T) k"
      using 4(9) pr by (auto simp: update_conv')
    have ii: "\<forall>s d. s \<notin> set rest \<longrightarrow> map_of (Children T) s = Some d \<longrightarrow> Value d \<noteq> None \<longrightarrow>
        (\<exists>m d'. map_of ?cur s = Some d' \<and> Merge_fuel m d = Some d')"
    proof (intro allI impI)
      fix s d assume s: "s \<notin> set rest" "map_of (Children T) s = Some d" "Value d \<noteq> None"
      show "\<exists>m d'. map_of ?cur s = Some d' \<and> Merge_fuel m d = Some d'"
      proof (cases "s = part")
        case True
        with s(2) c c' show ?thesis by (auto simp: update_conv')
      next
        case False
        with s(1) have "s \<notin> set (part # rest)" by simp
        with 4(10) s(2,3) False show ?thesis by (auto simp: update_conv')
      qed
    qed
    have iii: "\<forall>k \<in> fst ` set ?cur. \<exists>p. p \<noteq> [] \<and> node_at T p \<noteq> None \<and> concat p = k"
      using 4(11) key_is_path[OF pk] by (auto simp: dom_update)
    from 4(12) cur c' False have run: "Merge_range n rest ?cur = Some rs" by simp
    from 4(4)[OF cur c' False im un dr sr i ii iii run] show ?thesis .
  next
    case True
    let ?up = "AList.update part c' children"
    let ?sp = "fold (\<lambda>(cPart, cChild). AList.update (part @ cPart) cChild) (Children c') ?up"
    let ?cur = "AList.delete part ?sp"
    have spliced: "\<exists>q. q \<noteq> [] \<and> node_at T (part # q) \<noteq> None \<and> a = concat q"
      if "a \<in> fst ` set (Children c')" for a
    proof -
      from ck that obtain p where "p \<noteq> []" "node_at c p \<noteq> None" "concat p = a" by blast
      then have "p \<noteq> [] \<and> node_at T (part # p) \<noteq> None \<and> a = concat p"
        using node_at_Cons[OF c, of p] by simp
      then show ?thesis by blast
    qed
    have other: "k \<notin> (\<lambda>a. part @ a) ` fst ` set (Children c')" if "map_of (Children T) k \<noteq> None" for k
    proof
      assume "k \<in> (\<lambda>a. part @ a) ` fst ` set (Children c')"
      then obtain a where a: "a \<in> fst ` set (Children c')" "k = part @ a" by blast
      from spliced[OF a(1)] obtain q where q: "q \<noteq> []" "node_at T (part # q) \<noteq> None" "a = concat q"
        by blast
      from unambiguous_key_not_spliced[OF un that q(2,1)] a(2) q(3) show False by simp
    qed
    have same: "map_of ?cur k = map_of children k" if "map_of (Children T) k \<noteq> None" "k \<noteq> part" for k
      using that(2) map_of_fold_splice_other[OF other[OF that(1)], of ?up]
      by (simp add: delete_conv' update_conv')
    have i: "\<forall>k \<in> set rest. map_of ?cur k = map_of (Children T) k"
    proof
      fix k assume k: "k \<in> set rest"
      with sr have "map_of (Children T) k \<noteq> None" by (auto simp: map_of_eq_None_iff)
      moreover from k pr have "k \<noteq> part" by auto
      ultimately show "map_of ?cur k = map_of (Children T) k" using same 4(9) k by simp
    qed
    have ii: "\<forall>s d. s \<notin> set rest \<longrightarrow> map_of (Children T) s = Some d \<longrightarrow> Value d \<noteq> None \<longrightarrow>
        (\<exists>m d'. map_of ?cur s = Some d' \<and> Merge_fuel m d = Some d')"
    proof (intro allI impI)
      fix s d assume s: "s \<notin> set rest" "map_of (Children T) s = Some d" "Value d \<noteq> None"
      have sp: "s \<noteq> part" using s(2,3) c vc True by auto
      with s(1) have "s \<notin> set (part # rest)" by simp
      with 4(10) s(2,3) obtain m d' where "map_of children s = Some d'" "Merge_fuel m d = Some d'"
        by blast
      moreover have "map_of ?cur s = map_of children s" using same[of s] s(2) sp by simp
      ultimately show "\<exists>m d'. map_of ?cur s = Some d' \<and> Merge_fuel m d = Some d'" by auto
    qed
    have iii: "\<forall>k \<in> fst ` set ?cur. \<exists>p. p \<noteq> [] \<and> node_at T p \<noteq> None \<and> concat p = k"
    proof
      fix k assume "k \<in> fst ` set ?cur"
      then have "k \<in> fst ` set ?sp" using set_delete_subset[of part ?sp] by auto
      then have "k \<in> fst ` set ?up \<or> k \<in> (\<lambda>a. part @ a) ` fst ` set (Children c')"
        by (simp add: fold_update_keys)
      then show "\<exists>p. p \<noteq> [] \<and> node_at T p \<noteq> None \<and> concat p = k"
      proof
        assume "k \<in> fst ` set ?up"
        then show ?thesis using 4(11) key_is_path[OF pk] by (auto simp: dom_update)
      next
        assume "k \<in> (\<lambda>a. part @ a) ` fst ` set (Children c')"
        then obtain a where a: "a \<in> fst ` set (Children c')" "k = part @ a" by blast
        from spliced[OF a(1)] obtain q where q: "q \<noteq> []" "node_at T (part # q) \<noteq> None" "a = concat q"
          by blast
        then have "part # q \<noteq> [] \<and> node_at T (part # q) \<noteq> None \<and> concat (part # q) = k"
          using a(2) by simp
        then show ?thesis by blast
      qed
    qed
    from 4(12) cur c' True have run: "Merge_range n rest ?cur = Some rs" by simp
    from 4(3)[OF cur c' True im un dr sr i ii iii run] show ?thesis .
  qed
qed

lemma Merge_fuel_value_at:
  "is_map t \<Longrightarrow> unambiguous t \<Longrightarrow> valued_path t segs \<Longrightarrow> Merge_fuel n t = Some r \<Longrightarrow>
     value_at r segs = value_at t segs"
proof (induction segs arbitrary: t n r)
  case Nil
  then show ?case by (simp add: Merge_fuel_Value)
next
  case (Cons s rest)
  from Cons(4) obtain c where c: "map_of (Children t) s = Some c" "Value c \<noteq> None" "valued_path c rest"
    by (auto split: option.splits)
  from Merge_keeps(1)[OF Cons(2,3,5)] c(1,2) obtain m c' where
    c': "map_of (Children r) s = Some c'" "Merge_fuel m c = Some c'" by blast
  from Cons(1)[OF is_map_child[OF Cons(2) c(1)] unambiguous_child[OF Cons(3) c(1)] c(3) c'(2)]
  show ?case using c(1) c'(1) by (simp add: value_at_Cons)
qed

text \<open>
  C3, as amended. In a trie whose children lists are maps and whose node paths are
  unambiguous, for a key that holds a value \<open>v\<close> and whose path has a value at every node
  below the root: \<open>Merge\<close> returns, and \<open>Get\<close> of the key on the merged trie returns \<open>v\<close>.
\<close>

theorem Merge_preserves_Get_on_valued_path:
  "is_map t \<Longrightarrow> unambiguous t \<Longrightarrow> segments_of seg key segs \<Longrightarrow> valued_path t segs \<Longrightarrow>
   value_at t segs = Some v \<Longrightarrow>
     \<exists>t'. Merge t = Some t' \<and> Get seg zero t' key = Inr v"
proof -
  assume im: "is_map t" and un: "unambiguous t" and sg: "segments_of seg key segs"
    and vp: "valued_path t segs" and v: "value_at t segs = Some v"
  from Merge_returns obtain t' where t': "Merge t = Some t'" by blast
  then have "Merge_fuel (height t) t = Some t'" by (simp add: Merge_def)
  from Merge_fuel_value_at[OF im un vp this] v have "value_at t' segs = Some v" by simp
  then have "Get seg zero t' key = Inr v"
    unfolding segments_of_Get[OF sg] by (auto simp: value_at_def split: option.splits)
  with t' show ?thesis by blast
qed

text \<open>
  C3, as stated, fails: after \<open>Put("/a/b", 1)\<close> on a fresh trie the node \<open>/a\<close> is internal;
  \<open>Merge\<close> stores the node of \<open>/a/b\<close> under the single key \<open>"/a/b"\<close> of the root and deletes
  \<open>/a\<close>, and \<open>Get("/a/b")\<close>, which looks for the child \<open>"/a"\<close> first, returns the zero value.
\<close>

theorem Merge_rekeys_collapsed_chain:
  "Put PathSegmenter NewPathTrie ''/a/b'' (1::int)
     = Some (PathTrie None [(''/a'', PathTrie None [(''/b'', PathTrie (Some 1) [])])]) \<and>
   Get PathSegmenter 0 (PathTrie None [(''/a'', PathTrie None [(''/b'', PathTrie (Some (1::int)) [])])]) ''/a/b''
     = Inr 1 \<and>
   Merge (PathTrie None [(''/a'', PathTrie None [(''/b'', PathTrie (Some (1::int)) [])])])
     = Some (PathTrie None [(''/a/b'', PathTrie (Some 1) [])]) \<and>
   Get PathSegmenter 0 (PathTrie None [(''/a/b'', PathTrie (Some (1::int)) [])]) ''/a/b'' = Inr 0"
  by (simp add: Get_def Put_def Put_loop.simps PathSegmenter_def NewPathTrie_def newPathTrie_def
      Merge_def)

lemma example_node_paths:
  "node_at (PathTrie None [(''/a'', PathTrie (Some (1::int)) [(''/b'', PathTrie (Some 2) [])]),
                           (''/x'', PathTrie None [(''/y'', PathTrie (Some 3) [])])]) p \<noteq> None \<Longrightarrow>
     p = [] \<or> p = [''/a''] \<or> p = [''/a'', ''/b''] \<or> p = [''/x''] \<or> p = [''/x'', ''/y'']"
proof (cases p)
  case Nil
  then show ?thesis by simp
next
  case (Cons a q)
  note p = this
  assume n: "node_at (PathTrie None [(''/a'', PathTrie (Some (1::int)) [(''/b'', PathTrie (Some 2) [])]),
                           (''/x'', PathTrie None [(''/y'', PathTrie (Some 3) [])])]) p \<noteq> None"
  show ?thesis
  proof (cases q)
    case Nil
    with n p show ?thesis by (auto split: if_splits)
  next
    case (Cons b r)
    with n p show ?thesis by (cases r) (auto split: if_splits)
  qed
qed

lemma example_unambiguous:
  "unambiguous (PathTrie None [(''/a'', PathTrie (Some (1::int)) [(''/b'', PathTrie (Some 2) [])]),
                               (''/x'', PathTrie None [(''/y'', PathTrie (Some 3) [])])])"
  unfolding unambiguous_def
proof (rule inj_onI)
  fix p q
  let ?T = "PathTrie None [(''/a'', PathTrie (Some (1::int)) [(''/b'', PathTrie (Some 2) [])]),
                           (''/x'', PathTrie None [(''/y'', PathTrie (Some 3) [])])]"
  assume "p \<in> {p. node_at ?T p \<noteq> None}" and "q \<in> {p. node_at ?T p \<noteq> None}"
  then have "node_at ?T p \<noteq> None" "node_at ?T q \<noteq> None" by blast+
  from example_node_paths[OF this(1)] example_node_paths[OF this(2)]
  show "concat p = concat q \<Longrightarrow> p = q" by auto
qed

lemma segments_ab: "segments_of PathSegmenter ''/a/b'' [''/a'', ''/b'']"
  unfolding segments_of_def
  apply (rule disjI2)
  apply (simp add: PathSegmenter_def)
  apply (rule segmented.more; simp add: PathSegmenter_def)
  apply (rule segmented.final; simp add: PathSegmenter_def)
  done

theorem Merge_preserves_Get_on_valued_path_witness:
  "is_map (PathTrie None [(''/a'', PathTrie (Some (1::int)) [(''/b'', PathTrie (Some 2) [])]),
                          (''/x'', PathTrie None [(''/y'', PathTrie (Some 3) [])])]) \<and>
   unambiguous (PathTrie None [(''/a'', PathTrie (Some (1::int)) [(''/b'', PathTrie (Some 2) [])]),
                               (''/x'', PathTrie None [(''/y'', PathTrie (Some 3) [])])]) \<and>
   segments_of PathSegmenter ''/a/b'' [''/a'', ''/b''] \<and>
   valued_path (PathTrie None [(''/a'', PathTrie (Some (1::int)) [(''/b'', PathTrie (Some 2) [])]),
                               (''/x'', PathTrie None [(''/y'', PathTrie (Some 3) [])])]) [''/a'', ''/b''] \<and>
   value_at (PathTrie None [(''/a'', PathTrie (Some (1::int)) [(''/b'', PathTrie (Some 2) [])]),
                            (''/x'', PathTrie None [(''/y'', PathTrie (Some 3) [])])]) [''/a'', ''/b''] = Some 2 \<and>
   (\<exists>t'. Merge (PathTrie None [(''/a'', PathTrie (Some (1::int)) [(''/b'', PathTrie (Some 2) [])]),
                               (''/x'', PathTrie None [(''/y'', PathTrie (Some 3) [])])]) = Some t' \<and>
         Get PathSegmenter 0 t' ''/a/b'' = Inr 2)"
proof -
  let ?T = "PathTrie None [(''/a'', PathTrie (Some (1::int)) [(''/b'', PathTrie (Some 2) [])]),
                           (''/x'', PathTrie None [(''/y'', PathTrie (Some 3) [])])]"
  have im: "is_map ?T" by simp
  have vp: "valued_path ?T [''/a'', ''/b'']" by simp
  have v: "value_at ?T [''/a'', ''/b''] = Some 2" by (simp add: value_at_def)
  from im example_unambiguous segments_ab vp v
    Merge_preserves_Get_on_valued_path [OF im example_unambiguous segments_ab vp v, of 0]
  show ?thesis by (intro conjI)
qed

section \<open>Put stores one value and keeps the others\<close>

text \<open>
  What \<open>Put\<close> does to the stored values, read at the nodes: the value of the key's own
  path becomes \<open>v\<close>, the value at every other path is what it was (none where there was
  no node). The second half of C10 holds; its first half fails only through \<open>Get\<close>.
\<close>

lemma value_at_leaf: "p \<noteq> [] \<Longrightarrow> value_at (PathTrie v []) p = None"
  by (cases p) (simp_all add: value_at_Cons)

lemma value_at_same_children:
  "p \<noteq> [] \<Longrightarrow> Children a = Children b \<Longrightarrow> value_at a p = value_at b p"
  by (cases p) (simp_all add: value_at_Cons)

lemma Put_loop_frame:
  "segmented seg key consumed part i segs \<Longrightarrow>
     \<exists>t'. Put_loop seg key v node part i = Some t' \<and> value_at t' segs = Some v \<and>
          (\<forall>p. p \<noteq> segs \<longrightarrow> value_at t' p = value_at node p)"
proof (induction arbitrary: node rule: segmented.induct)
  case (final part consumed key seg)
  let ?c = "case map_of (Children node) part of None \<Rightarrow> newPathTrie | Some child \<Rightarrow> child"
  let ?c' = "PathTrie (Some v) (Children ?c)"
  let ?t' = "PathTrie (Value node) (AList.update part ?c' (Children node))"
  have put: "Put_loop seg key v node part (- 1) = Some ?t'"
    using final(1,3) by (subst Put_loop.simps, subst Put_loop.simps) simp
  have here: "value_at ?t' [part] = Some v" by (simp add: value_at_Cons update_conv')
  have other: "value_at ?t' p = value_at node p" if "p \<noteq> [part]" for p
  proof (cases p)
    case Nil
    then show ?thesis by simp
  next
    case (Cons q ps)
    show ?thesis
    proof (cases "q = part")
      case False
      with Cons show ?thesis by (simp add: value_at_Cons update_conv')
    next
      case True
      with Cons that have ps: "ps \<noteq> []" by simp
      have "value_at ?c' ps = value_at ?c ps" by (rule value_at_same_children[OF ps]) simp
      also have "\<dots> = value_at node (part # ps)"
        using ps by (simp add: value_at_Cons newPathTrie_def value_at_leaf split: option.splits)
      finally show ?thesis using Cons True by (simp add: value_at_Cons update_conv')
    qed
  qed
  from put here other show ?case by blast
next
  case (more part i key consumed seg segs)
  let ?c = "case map_of (Children node) part of None \<Rightarrow> newPathTrie | Some child \<Rightarrow> child"
  from more.IH[of ?c] obtain c' where
    c': "Put_loop seg key v ?c (fst (seg key i)) (snd (seg key i)) = Some c'"
        "value_at c' segs = Some v" "\<forall>p. p \<noteq> segs \<longrightarrow> value_at c' p = value_at ?c p" by blast
  let ?t' = "PathTrie (Value node) (AList.update part c' (Children node))"
  have put: "Put_loop seg key v node part i = Some ?t'"
    using more(1) c'(1) by (subst Put_loop.simps) simp
  have here: "value_at ?t' (part # segs) = Some v" using c'(2) by (simp add: value_at_Cons update_conv')
  from more(5) have ne: "segs \<noteq> []" by (cases rule: segmented.cases) auto
  have other: "value_at ?t' p = value_at node p" if "p \<noteq> part # segs" for p
  proof (cases p)
    case Nil
    then show ?thesis by simp
  next
    case (Cons q ps)
    show ?thesis
    proof (cases "q = part")
      case False
      with Cons show ?thesis by (simp add: value_at_Cons update_conv')
    next
      case True
      with Cons that have ps: "ps \<noteq> segs" by simp
      with c'(3) have "value_at c' ps = value_at ?c ps" by blast
      also have "\<dots> = value_at node (part # ps)"
      proof (cases "map_of (Children node) part")
        case None
        show ?thesis
        proof (cases ps)
          case Nil
          with None show ?thesis by (simp add: value_at_Cons newPathTrie_def)
        next
          case (Cons a list)
          with None show ?thesis by (simp add: value_at_Cons newPathTrie_def)
        qed
      next
        case (Some a)
        then show ?thesis by (simp add: value_at_Cons)
      qed
      finally show ?thesis using Cons True by (simp add: value_at_Cons update_conv')
    qed
  qed
  from put here other show ?case by blast
qed

lemma Put_keeps_other_values:
  "segments_of seg key segs \<Longrightarrow>
     \<exists>t'. Put seg trie key v = Some t' \<and> value_at t' segs = Some v \<and>
          (\<forall>p. p \<noteq> segs \<longrightarrow> value_at t' p = value_at trie p)"
proof (cases "fst (seg key 0) = [] \<and> segs = []")
  case True
  have "Put seg trie key v = Some (PathTrie (Some v) (Children trie))"
    using True by (simp add: Put_def Put_loop.simps)
  moreover have "value_at (PathTrie (Some v) (Children trie)) p = value_at trie p" if "p \<noteq> []" for p
    by (rule value_at_same_children[OF that]) simp
  ultimately show ?thesis using True by auto
next
  case False
  assume "segments_of seg key segs"
  with False have "segmented seg key [] (fst (seg key 0)) (snd (seg key 0)) segs"
    by (auto simp: segments_of_def)
  from Put_loop_frame[OF this, of v trie] show ?thesis by (simp add: Put_def)
qed

section \<open>Entries created while Merge iterates\<close>

text \<open>
  A merged node has a value at every node below it, and merging such a node again
  returns it unchanged. The entries that \<open>Merge\<close> stores into the map during its loop are
  children of a merged child, so they hold a value and are themselves such nodes: if
  the iteration does produce one of them, the loop body calls \<open>Merge\<close> on it, which
  changes nothing, and finds a value. The merged trie is the same either way.
\<close>

lemma all_valued_iff: "all_valued t \<longleftrightarrow> (\<forall>c \<in> snd ` set (Children t). Value c \<noteq> None \<and> all_valued c)"
  by (cases t) simp

lemma is_map_iff: "is_map t \<longleftrightarrow> distinct (map fst (Children t)) \<and> (\<forall>c \<in> snd ` set (Children t). is_map c)"
  by (cases t) simp

lemma distinct_fold_splice:
  "distinct (map fst acc) \<Longrightarrow>
     distinct (map fst (fold (\<lambda>(cPart, cChild). AList.update (part @ cPart) cChild) xs acc))"
proof (induction xs arbitrary: acc)
  case Nil
  then show ?case by simp
next
  case (Cons x xs)
  obtain a b where x: "x = (a, b)" by (cases x)
  show ?case unfolding x using Cons(1)[of "AList.update (part @ a) b acc"] Cons(2)
    by (simp add: distinct_update)
qed

lemma Merge_idempotent:
  "is_map (t :: 'a PathTrie) \<Longrightarrow> all_valued t \<Longrightarrow> height t \<le> n \<Longrightarrow> Merge_fuel n t = Some t"
  "distinct (map fst (cur :: (string \<times> 'a PathTrie) list)) \<Longrightarrow>
     (\<forall>c \<in> snd ` set cur. is_map c \<and> Value c \<noteq> None \<and> all_valued c \<and> height c \<le> n) \<Longrightarrow>
     Merge_range n pending cur = Some cur"
proof (induction n t and n pending cur rule: Merge_fuel_Merge_range.induct)
  case (1 trie)
  then show ?case using height_pos[of trie] by simp
next
  case (2 n trie)
  from 2(4) have "\<forall>c \<in> snd ` set (Children trie). height c \<le> n"
    using height_le_Suc[of trie n] by simp
  with 2(2,3) have "\<forall>c \<in> snd ` set (Children trie). is_map c \<and> Value c \<noteq> None \<and> all_valued c \<and> height c \<le> n"
    using is_map_iff[of trie] all_valued_iff[of trie] by blast
  from 2(1)[OF _ this] 2(2) show ?case using is_map_iff[of trie] by (cases trie) simp
next
  case (3 n children)
  then show ?case by simp
next
  case (4 n part rest children)
  show ?case
  proof (cases "map_of children part")
    case None
    from 4(1)[OF None 4(5,6)] None show ?thesis by simp
  next
    case (Some child)
    from map_of_SomeD[OF Some] have "child \<in> snd ` set children" by force
    with 4(6) have c: "is_map child" "Value child \<noteq> None" "all_valued child" "height child \<le> n"
      by blast+
    from 4(2)[OF Some c(1,3,4)] have m: "Merge_fuel n child = Some child" .
    have u: "AList.update part child children = children" by (rule update_same[OF Some])
    from 4(4)[OF Some m c(2)] 4(5,6) have "Merge_range n rest children = Some children"
      unfolding u by blast
    with Some m c(2) u show ?thesis by auto
  qed
qed

lemma Merge_all_valued:
  "is_map (t :: 'a PathTrie) \<Longrightarrow> Merge_fuel n t = Some r \<Longrightarrow> is_map r \<and> all_valued r"
  "distinct (map fst (cur :: (string \<times> 'a PathTrie) list)) \<Longrightarrow> (\<forall>c \<in> snd ` set cur. is_map c) \<Longrightarrow>
     (\<forall>k c. map_of cur k = Some c \<longrightarrow> k \<notin> set pending \<longrightarrow> Value c \<noteq> None \<and> all_valued c) \<Longrightarrow>
     Merge_range n pending cur = Some rs \<Longrightarrow>
     distinct (map fst rs) \<and> (\<forall>c \<in> snd ` set rs. is_map c) \<and>
     (\<forall>k c. map_of rs k = Some c \<longrightarrow> Value c \<noteq> None \<and> all_valued c)"
proof (induction n t and n pending cur arbitrary: r and rs rule: Merge_fuel_Merge_range.induct)
  case (1 trie)
  then show ?case by simp
next
  case (2 n trie)
  from 2(3) obtain r0 where
    r0: "Merge_range n (map fst (Children trie)) (Children trie) = Some r0"
    and r: "r = PathTrie (Value trie) r0" by auto
  have pend: "\<forall>k c. map_of (Children trie) k = Some c \<longrightarrow> k \<notin> set (map fst (Children trie)) \<longrightarrow>
      Value c \<noteq> None \<and> all_valued c"
    by (auto dest!: map_of_SomeD intro: rev_image_eqI)
  from 2(2) have d: "distinct (map fst (Children trie))" "\<forall>c \<in> snd ` set (Children trie). is_map c"
    using is_map_iff[of trie] by auto
  from 2(1)[OF d pend r0] have
    res: "distinct (map fst r0)" "\<forall>c \<in> snd ` set r0. is_map c"
         "\<forall>k c. map_of r0 k = Some c \<longrightarrow> Value c \<noteq> None \<and> all_valued c" by auto
  have "\<forall>c \<in> snd ` set r0. Value c \<noteq> None \<and> all_valued c"
  proof
    fix c assume "c \<in> snd ` set r0"
    then obtain k where "(k, c) \<in> set r0" by auto
    with res(1) have "map_of r0 k = Some c" by simp
    with res(3) show "Value c \<noteq> None \<and> all_valued c" by blast
  qed
  with res(1,2) show ?case unfolding r by simp
next
  case (3 n children)
  then show ?case by simp
next
  case (4 n part rest children)
  show ?case
  proof (cases "map_of children part")
    case None
    have "\<forall>k c. map_of children k = Some c \<longrightarrow> k \<notin> set rest \<longrightarrow> Value c \<noteq> None \<and> all_valued c"
      using 4(7) None by (metis option.distinct(1) set_ConsD)
    from 4(1)[OF None 4(5,6) this] 4(8) None show ?thesis by simp
  next
    case (Some child)
    from map_of_SomeD[OF Some] have "child \<in> snd ` set children" by force
    with 4(6) have ic: "is_map child" by blast
    from 4(8) Some obtain child' where c': "Merge_fuel n child = Some child'"
      by (auto split: option.splits)
    from 4(2)[OF Some ic c'] have g: "is_map child'" "all_valued child'" by auto
    let ?up = "AList.update part child' children"
    have dup: "distinct (map fst ?up)" using 4(5) by (simp add: distinct_update)
    have iup: "\<forall>c \<in> snd ` set ?up. is_map c"
      using set_update_subset[of part child' children] 4(6) g(1) by fastforce
    show ?thesis
    proof (cases "Value child' = None")
      case False
      have inv: "\<forall>k c. map_of ?up k = Some c \<longrightarrow> k \<notin> set rest \<longrightarrow> Value c \<noteq> None \<and> all_valued c"
        using 4(7) False g(2) by (auto simp: update_conv')
      from 4(8) Some c' False have run: "Merge_range n rest ?up = Some rs" by simp
      from 4(4)[OF Some c' False dup iup inv run] show ?thesis .
    next
      case True
      let ?sp = "fold (\<lambda>(cPart, cChild). AList.update (part @ cPart) cChild) (Children child') ?up"
      let ?cur = "AList.delete part ?sp"
      have d: "distinct (map fst ?cur)"
        using distinct_fold_splice[OF dup, of part "Children child'"] by (simp add: distinct_delete)
      have gc: "\<forall>c \<in> snd ` set (Children child'). is_map c \<and> Value c \<noteq> None \<and> all_valued c"
        using g is_map_iff[of child'] all_valued_iff[of child'] by blast
      have sub: "set ?cur \<subseteq> set ?up \<union> (\<lambda>(cPart, cChild). (part @ cPart, cChild)) ` set (Children child')"
        using set_delete_subset[of part ?sp] fold_update_set[of part "Children child'" ?up] by blast
      have i: "\<forall>c \<in> snd ` set ?cur. is_map c"
      proof
        fix c assume "c \<in> snd ` set ?cur"
        then obtain k where "(k, c) \<in> set ?cur" by auto
        with sub have "(k, c) \<in> set ?up \<or> c \<in> snd ` set (Children child')" by force
        with iup gc show "is_map c" by force
      qed
      have inv: "\<forall>k c. map_of ?cur k = Some c \<longrightarrow> k \<notin> set rest \<longrightarrow> Value c \<noteq> None \<and> all_valued c"
      proof (intro allI impI)
        fix k c assume m: "map_of ?cur k = Some c" and k: "k \<notin> set rest"
        from m have kp: "k \<noteq> part" by (auto simp: delete_conv' split: if_splits)
        from map_of_SomeD[OF m] sub
        have "(k, c) \<in> set ?up \<or> c \<in> snd ` set (Children child')" by force
        then show "Value c \<noteq> None \<and> all_valued c"
        proof
          assume "(k, c) \<in> set ?up"
          with dup have "map_of ?up k = Some c" by simp
          with kp have "map_of children k = Some c" by (simp add: update_conv')
          with 4(7) k kp show ?thesis by auto
        next
          assume "c \<in> snd ` set (Children child')"
          with gc show ?thesis by blast
        qed
      qed
      from 4(8) Some c' True have run: "Merge_range n rest ?cur = Some rs" by simp
      from 4(3)[OF Some c' True d i inv run] show ?thesis .
    qed
  qed
qed

lemma Merge_entries_settled:
  "is_map t \<Longrightarrow> Merge_fuel n t = Some r \<Longrightarrow> (k, c) \<in> set (Children r) \<Longrightarrow>
     Value c \<noteq> None \<and> Merge c = Some c"
proof -
  assume "is_map t" and "Merge_fuel n t = Some r" and kc: "(k, c) \<in> set (Children r)"
  then have r: "is_map r" "all_valued r" using Merge_all_valued(1) by blast+
  from kc have "c \<in> snd ` set (Children r)" by force
  with r have "is_map c" "Value c \<noteq> None" "all_valued c"
    using is_map_iff[of r] all_valued_iff[of r] by blast+
  with Merge_idempotent(1)[of c "height c"] show ?thesis by (simp add: Merge_def)
qed

section \<open>Walk reports the keys that were put\<close>

text \<open>
  \<open>Put\<close> keeps the children lists maps; with a segmenter whose segments concatenate to
  the key (the default one does), the key that \<open>Walk\<close> rebuilds for the node written by
  \<open>Put(key, v)\<close> is \<open>key\<close> itself.
\<close>

lemma is_map_update:
  "is_map (PathTrie v cs) \<Longrightarrow> is_map c \<Longrightarrow> is_map (PathTrie w (AList.update part c cs))"
  using set_update_subset[of part c cs] by (auto simp: distinct_update)

lemma Put_loop_is_map:
  "seg_stops seg key part i \<Longrightarrow> is_map node \<Longrightarrow> Put_loop seg key v node part i = Some t' \<Longrightarrow> is_map t'"
proof (induction arbitrary: node t' rule: seg_stops.induct)
  case (stop seg key i)
  from stop(2) have "t' = PathTrie (Some v) (Children node)" by (subst (asm) Put_loop.simps) simp
  with stop(1) show ?case by (cases node) simp
next
  case (step part seg key i)
  let ?c = "case map_of (Children node) part of None \<Rightarrow> newPathTrie | Some child \<Rightarrow> child"
  have ic: "is_map ?c"
    using step(4) is_map_child[of node part] by (auto simp: newPathTrie_def split: option.splits)
  from step(5) step(1) obtain c' where
    c': "Put_loop seg key v ?c (fst (seg key i)) (snd (seg key i)) = Some c'"
    and t': "t' = PathTrie (Value node) (AList.update part c' (Children node))"
    by (subst (asm) Put_loop.simps) (auto simp: bind_eq_Some_conv)
  from step(3)[OF ic c'] have "is_map c'" .
  with step(4) show ?case unfolding t' by (cases node) (simp add: is_map_update del: is_map.simps)
qed

lemma segmented_stops: "segmented seg key consumed part i segs \<Longrightarrow> seg_stops seg key part i"
proof (induction rule: segmented.induct)
  case (final part consumed key seg)
  have "seg_stops seg key (fst (seg key (- 1))) (snd (seg key (- 1)))"
    using final(3) by (simp add: seg_stops.stop)
  with final(1) show ?case by (rule seg_stops.step)
next
  case (more part i key consumed seg segs)
  from more(1,6) show ?case by (rule seg_stops.step)
qed

lemma segments_of_terminates: "segments_of seg key segs \<Longrightarrow> terminates_on seg key"
  unfolding segments_of_def terminates_on_def
  by (auto intro: seg_stops.stop segmented_stops)

lemma Put_is_map:
  "terminates_on seg key \<Longrightarrow> is_map trie \<Longrightarrow> Put seg trie key v = Some t' \<Longrightarrow> is_map t'"
  unfolding terminates_on_def Put_def by (rule Put_loop_is_map)

lemma PathSegmenter_concat: "segments_of PathSegmenter key segs \<Longrightarrow> concat segs = key"
proof (cases "fst (PathSegmenter key 0) = [] \<and> segs = []")
  case True
  then have "key = []" by (auto simp: PathSegmenter_def split: if_splits option.splits)
  with True show ?thesis by simp
next
  case False
  assume "segments_of PathSegmenter key segs"
  with False have "segmented PathSegmenter key [] (fst (PathSegmenter key 0)) (snd (PathSegmenter key 0)) segs"
    by (auto simp: segments_of_def)
  from segmented_concat[OF this] show ?thesis by simp
qed

lemma Walk_reports_Put_key:
  "is_map trie \<Longrightarrow> segments_of seg key segs \<Longrightarrow> concat segs = key \<Longrightarrow>
     \<exists>t' log. Put seg trie key v = Some t' \<and> Walk t' collect [] = (None, log) \<and> (key, v) \<in> set log"
proof -
  assume im: "is_map trie" and sg: "segments_of seg key segs" and cc: "concat segs = key"
  from Put_keeps_other_values[OF sg, of trie v] obtain t' where
    t': "Put seg trie key v = Some t'" "value_at t' segs = Some v" by blast
  from Put_is_map[OF segments_of_terminates[OF sg] im t'(1)] have im': "is_map t'" .
  have w: "Walk t' collect [] = (None, map (\<lambda>p. (concat p, the (value_at t' p))) (paths t'))"
    by (simp add: Walk_def walk_run(1) run_walker_collect visits_paths(1)[OF im'])
  from t'(2) have "segs \<in> set (paths t')" unfolding paths_set(1)[OF im'] by simp
  then have "(concat segs, the (value_at t' segs)) \<in> set (map (\<lambda>p. (concat p, the (value_at t' p))) (paths t'))"
    by simp
  with t' w cc show ?thesis by auto
qed

section \<open>Walk and the keys of the stored values\<close>

text \<open>
  C5, as stated, fails. \<open>Put("/a/b", 1)\<close>, \<open>Merge\<close>, \<open>Put("/a/b", 5)\<close> on a fresh trie
  leave two nodes with a value, one under the merged key \<open>"/a/b"\<close> of the root and one
  under \<open>"/a"\<close> then \<open>"/b"\<close>. \<open>Walk\<close> visits each node once, and so calls the walker twice
  with the key \<open>"/a/b"\<close>.
\<close>

theorem Walk_repeats_key_after_Merge:
  "Put PathSegmenter NewPathTrie ''/a/b'' (1::int)
     = Some (PathTrie None [(''/a'', PathTrie None [(''/b'', PathTrie (Some 1) [])])]) \<and>
   Merge (PathTrie None [(''/a'', PathTrie None [(''/b'', PathTrie (Some (1::int)) [])])])
     = Some (PathTrie None [(''/a/b'', PathTrie (Some 1) [])]) \<and>
   Put PathSegmenter (PathTrie None [(''/a/b'', PathTrie (Some (1::int)) [])]) ''/a/b'' 5
     = Some (PathTrie None [(''/a/b'', PathTrie (Some 1) []),
                            (''/a'', PathTrie None [(''/b'', PathTrie (Some 5) [])])]) \<and>
   is_map (PathTrie None [(''/a/b'', PathTrie (Some (1::int)) []),
                          (''/a'', PathTrie None [(''/b'', PathTrie (Some 5) [])])]) \<and>
   Walk (PathTrie None [(''/a/b'', PathTrie (Some (1::int)) []),
                        (''/a'', PathTrie None [(''/b'', PathTrie (Some 5) [])])]) collect []
     = (None, [(''/a/b'', 1), (''/a/b'', 5)])"
  by (simp add: Put_def Put_loop.simps PathSegmenter_def NewPathTrie_def newPathTrie_def
      Merge_def Walk_def collect_def)

text \<open>
  C5, as amended. On a trie whose children lists are maps and in which the paths to the
  value-holding nodes concatenate to pairwise different strings, \<open>Walk\<close> with the
  collecting walker returns nil; its calls are one call for each path of segments that
  leads to a node holding a value, no path twice and no other call, each with the
  concatenation of the segments as the key and the value stored there; and no key is
  passed twice.
\<close>

theorem Walk_visits_each_key_once:
  "is_map t \<Longrightarrow> inj_on concat {p. value_at t p \<noteq> None} \<Longrightarrow>
     \<exists>ps log. distinct ps \<and> set ps = {p. value_at t p \<noteq> None} \<and>
        Walk t collect [] = (None, log) \<and>
        log = map (\<lambda>p. (concat p, the (value_at t p))) ps \<and>
        distinct (map fst log)"
proof -
  assume m: "is_map t" and i: "inj_on concat {p. value_at t p \<noteq> None}"
  let ?log = "map (\<lambda>p. (concat p, the (value_at t p))) (paths t)"
  have w: "Walk t collect [] = (None, ?log)"
    by (simp add: Walk_def walk_run(1) run_walker_collect visits_paths(1)[OF m])
  have k: "map fst ?log = map concat (paths t)" by (simp add: comp_def)
  from i have "inj_on concat (set (paths t))" unfolding paths_set(1)[OF m] .
  with paths_distinct(1)[OF m] have "distinct (map fst ?log)"
    unfolding k by (simp add: distinct_map)
  with w paths_distinct(1)[OF m] paths_set(1)[OF m] show ?thesis by blast
qed

lemma example_value_paths:
  "value_at (PathTrie None [(''/a'', PathTrie (Some (3::int))
       [(''/b'', PathTrie (Some 1) []), (''/c'', PathTrie (Some 2) [])])]) p \<noteq> None \<Longrightarrow>
     p = [''/a''] \<or> p = [''/a'', ''/b''] \<or> p = [''/a'', ''/c'']"
proof (cases p)
  case Nil
  assume "value_at (PathTrie None [(''/a'', PathTrie (Some (3::int))
       [(''/b'', PathTrie (Some 1) []), (''/c'', PathTrie (Some 2) [])])]) p \<noteq> None"
  with Nil show ?thesis by simp
next
  case (Cons a q)
  note p = this
  assume n: "value_at (PathTrie None [(''/a'', PathTrie (Some (3::int))
       [(''/b'', PathTrie (Some 1) []), (''/c'', PathTrie (Some 2) [])])]) p \<noteq> None"
  show ?thesis
  proof (cases q)
    case Nil
    with n p show ?thesis by (auto simp: value_at_Cons split: if_splits)
  next
    case (Cons b r)
    with n p show ?thesis by (cases r) (auto simp: value_at_Cons split: if_splits)
  qed
qed

lemma example_value_paths_inj:
  "inj_on concat {p. value_at (PathTrie None [(''/a'', PathTrie (Some (3::int))
       [(''/b'', PathTrie (Some 1) []), (''/c'', PathTrie (Some 2) [])])]) p \<noteq> None}"
proof (rule inj_onI)
  fix p q
  let ?T = "PathTrie None [(''/a'', PathTrie (Some (3::int))
       [(''/b'', PathTrie (Some 1) []), (''/c'', PathTrie (Some 2) [])])]"
  assume "p \<in> {p. value_at ?T p \<noteq> None}" and "q \<in> {p. value_at ?T p \<noteq> None}"
  then have "value_at ?T p \<noteq> None" "value_at ?T q \<noteq> None" by blast+
  from example_value_paths[OF this(1)] example_value_paths[OF this(2)]
  show "concat p = concat q \<Longrightarrow> p = q" by auto
qed

theorem Walk_visits_each_key_once_witness:
  "is_map (PathTrie None [(''/a'', PathTrie (Some (3::int))
       [(''/b'', PathTrie (Some 1) []), (''/c'', PathTrie (Some 2) [])])]) \<and>
   inj_on concat {p. value_at (PathTrie None [(''/a'', PathTrie (Some (3::int))
       [(''/b'', PathTrie (Some 1) []), (''/c'', PathTrie (Some 2) [])])]) p \<noteq> None} \<and>
   (\<exists>ps log. distinct ps \<and>
      set ps = {p. value_at (PathTrie None [(''/a'', PathTrie (Some (3::int))
         [(''/b'', PathTrie (Some 1) []), (''/c'', PathTrie (Some 2) [])])]) p \<noteq> None} \<and>
      Walk (PathTrie None [(''/a'', PathTrie (Some (3::int))
         [(''/b'', PathTrie (Some 1) []), (''/c'', PathTrie (Some 2) [])])]) collect [] = (None, log) \<and>
      log = map (\<lambda>p. (concat p, the (value_at (PathTrie None [(''/a'', PathTrie (Some (3::int))
         [(''/b'', PathTrie (Some 1) []), (''/c'', PathTrie (Some 2) [])])]) p))) ps \<and>
      distinct (map fst log))"
proof -
  let ?T = "PathTrie None [(''/a'', PathTrie (Some (3::int))
       [(''/b'', PathTrie (Some 1) []), (''/c'', PathTrie (Some 2) [])])]"
  have m: "is_map ?T" by simp
  from m example_value_paths_inj Walk_visits_each_key_once [OF m example_value_paths_inj]
  show ?thesis by (intro conjI)
qed

section \<open>RecursiveDirectChildren and colliding keys\<close>

text \<open>
  C9, as stated, fails. On the trie left by \<open>Put("/a/b", 1)\<close>, \<open>Merge\<close>, \<open>Put("/a/b", 5)\<close>
  the root has two nearest value-bearing descendants, and both have the concatenated key
  \<open>"/a/b"\<close>: the result of \<open>RecursiveDirectChildren\<close> has one entry, and the node holding 1
  is not in it.
\<close>

theorem RecursiveDirectChildren_drops_colliding_key:
  "Put PathSegmenter NewPathTrie ''/a/b'' (1::int)
     = Some (PathTrie None [(''/a'', PathTrie None [(''/b'', PathTrie (Some 1) [])])]) \<and>
   Merge (PathTrie None [(''/a'', PathTrie None [(''/b'', PathTrie (Some (1::int)) [])])])
     = Some (PathTrie None [(''/a/b'', PathTrie (Some 1) [])]) \<and>
   Put PathSegmenter (PathTrie None [(''/a/b'', PathTrie (Some (1::int)) [])]) ''/a/b'' 5
     = Some (PathTrie None [(''/a/b'', PathTrie (Some 1) []),
                            (''/a'', PathTrie None [(''/b'', PathTrie (Some 5) [])])]) \<and>
   is_map (PathTrie None [(''/a/b'', PathTrie (Some (1::int)) []),
                          (''/a'', PathTrie None [(''/b'', PathTrie (Some 5) [])])]) \<and>
   nearest (PathTrie None [(''/a/b'', PathTrie (Some (1::int)) []),
                           (''/a'', PathTrie None [(''/b'', PathTrie (Some 5) [])])]) [''/a/b''] \<and>
   node_at (PathTrie None [(''/a/b'', PathTrie (Some (1::int)) []),
                           (''/a'', PathTrie None [(''/b'', PathTrie (Some 5) [])])]) [''/a/b'']
     = Some (PathTrie (Some 1) []) \<and>
   nearest (PathTrie None [(''/a/b'', PathTrie (Some (1::int)) []),
                           (''/a'', PathTrie None [(''/b'', PathTrie (Some 5) [])])]) [''/a'', ''/b''] \<and>
   node_at (PathTrie None [(''/a/b'', PathTrie (Some (1::int)) []),
                           (''/a'', PathTrie None [(''/b'', PathTrie (Some 5) [])])]) [''/a'', ''/b'']
     = Some (PathTrie (Some 5) []) \<and>
   RecursiveDirectChildren (PathTrie None [(''/a/b'', PathTrie (Some (1::int)) []),
                           (''/a'', PathTrie None [(''/b'', PathTrie (Some 5) [])])])
     = [(''/a/b'', PathTrie (Some 5) [])]"
  by (simp add: Put_def Put_loop.simps PathSegmenter_def NewPathTrie_def newPathTrie_def Merge_def)

text \<open>
  C9, as amended. On a node whose subtree has maps as children lists and whose nearest
  value-bearing descendants have pairwise different concatenated keys, the result of
  \<open>RecursiveDirectChildren\<close> is exactly the mapping of these descendants: it maps the
  concatenated key of each to that node, and has no other key.
\<close>

theorem RecursiveDirectChildren_exact:
  "is_map t \<Longrightarrow> inj_on concat {p. nearest t p} \<Longrightarrow>
     (\<forall>p. nearest t p \<longrightarrow> map_of (RecursiveDirectChildren t) (concat p) = node_at t p) \<and>
     (\<forall>k. k \<notin> concat ` {p. nearest t p} \<longrightarrow> map_of (RecursiveDirectChildren t) k = None)"
proof -
  assume m: "is_map t" and i: "inj_on concat {p. nearest t p}"
  have keys: "fst ` set (RecursiveDirectChildren t) = concat ` {p. nearest t p}"
    by (rule RDC_keys(1)[OF m])
  have a: "map_of (RecursiveDirectChildren t) (concat p) = node_at t p" if np: "nearest t p" for p
  proof -
    from np keys have "concat p \<in> fst ` set (RecursiveDirectChildren t)" by blast
    then obtain n where n: "map_of (RecursiveDirectChildren t) (concat p) = Some n"
      by (metis domD dom_map_of_conv_image_fst)
    from RDC_sound(1)[OF m] map_of_SomeD[OF n] obtain q where
      q: "nearest t q" "concat q = concat p" "node_at t q = Some n" by fast
    from i np q(1,2) have "q = p" by (auto dest: inj_onD)
    with n q(3) show ?thesis by simp
  qed
  have b: "map_of (RecursiveDirectChildren t) k = None" if "k \<notin> concat ` {p. nearest t p}" for k
    using that keys by (simp add: map_of_eq_None_iff)
  from a b show ?thesis by blast
qed

theorem RecursiveDirectChildren_exact_witness:
  "is_map (PathTrie None [(''/b'', PathTrie None [(''/c'', PathTrie (Some (1::int)) [])]), (''/x'', PathTrie (Some 2) [])]) \<and>
   inj_on concat {p. nearest (PathTrie None [(''/b'', PathTrie None [(''/c'', PathTrie (Some (1::int)) [])]), (''/x'', PathTrie (Some 2) [])]) p} \<and>
   nearest (PathTrie None [(''/b'', PathTrie None [(''/c'', PathTrie (Some (1::int)) [])]), (''/x'', PathTrie (Some 2) [])]) [''/b'', ''/c''] \<and>
   map_of (RecursiveDirectChildren (PathTrie None [(''/b'', PathTrie None [(''/c'', PathTrie (Some (1::int)) [])]), (''/x'', PathTrie (Some 2) [])]))
     (concat [''/b'', ''/c''])
     = node_at (PathTrie None [(''/b'', PathTrie None [(''/c'', PathTrie (Some (1::int)) [])]), (''/x'', PathTrie (Some 2) [])]) [''/b'', ''/c''] \<and>
   ''/b'' \<notin> concat ` {p. nearest (PathTrie None [(''/b'', PathTrie None [(''/c'', PathTrie (Some (1::int)) [])]), (''/x'', PathTrie (Some 2) [])]) p} \<and>
   map_of (RecursiveDirectChildren (PathTrie None [(''/b'', PathTrie None [(''/c'', PathTrie (Some (1::int)) [])]), (''/x'', PathTrie (Some 2) [])]))
     ''/b'' = None"
proof -
  let ?T = "PathTrie None [(''/b'', PathTrie None [(''/c'', PathTrie (Some (1::int)) [])]), (''/x'', PathTrie (Some 2) [])]"
  have m: "is_map ?T" by simp
  have n: "nearest ?T [''/b'', ''/c'']" by simp
  have k: "''/b'' \<notin> concat ` {p. nearest ?T p}" by (auto dest!: nearest_example_paths)
  note th = RecursiveDirectChildren_exact [OF m nearest_example_inj]
  from th n
  have 1: "map_of (RecursiveDirectChildren ?T) (concat [''/b'', ''/c'']) = node_at ?T [''/b'', ''/c'']"
    by blast
  from th k have 2: "map_of (RecursiveDirectChildren ?T) ''/b'' = None" by blast
  from m nearest_example_inj n 1 k 2 show ?thesis by (intro conjI)
qed

section \<open>Tries built by Put with the default segmenter\<close>

text \<open>
  A fresh trie is \<open>path_keyed\<close> and \<open>Put\<close> with the default segmenter keeps it so; in a
  \<open>path_keyed\<close> trie the slashes tell where each segment of a concatenated key begins, so
  different node paths concatenate to different strings. Such tries therefore meet the
  conditions under which \<open>Walk\<close> passes no key twice, \<open>RecursiveDirectChildren\<close> is exact
  and \<open>Merge\<close> keeps the lookups along valued paths.
\<close>

lemma takeWhile_prefix:
  "CHR ''/'' \<notin> set a \<Longrightarrow> x = [] \<or> hd x = CHR ''/'' \<Longrightarrow> takeWhile (\<lambda>c. c \<noteq> CHR ''/'') (a @ x) = a"
proof (induction a)
  case Nil
  then show ?case by (cases x) auto
next
  case (Cons c a)
  then show ?case by auto
qed

lemma shape_split:
  assumes "segment_shape a" "segment_shape b" "x = [] \<or> hd x = CHR ''/''" "y = [] \<or> hd y = CHR ''/''"
    and e: "a @ x = b @ y"
  shows "a = b \<and> x = y"
proof -
  from assms(1,2) obtain c a' d b' where a: "a = c # a'" "CHR ''/'' \<notin> set a'"
    and b: "b = d # b'" "CHR ''/'' \<notin> set b'"
    by (cases a; cases b) (auto simp: segment_shape_def)
  from e a b have cd: "c = d" and r: "a' @ x = b' @ y" by auto
  have "a' = takeWhile (\<lambda>c. c \<noteq> CHR ''/'') (a' @ x)" using takeWhile_prefix[OF a(2) assms(3)] by simp
  also have "\<dots> = b'" unfolding r using takeWhile_prefix[OF b(2) assms(4)] by simp
  finally have "a' = b'" .
  with r cd a b show ?thesis by simp
qed

lemma concat_later_hd: "\<forall>s \<in> set p. later_shape s \<Longrightarrow> concat p = [] \<or> hd (concat p) = CHR ''/''"
  by (cases p) (auto simp: later_shape_def segment_shape_def)

lemma concat_later_inj:
  "\<forall>s \<in> set p. later_shape s \<Longrightarrow> \<forall>s \<in> set q. later_shape s \<Longrightarrow> concat p = concat q \<Longrightarrow> p = q"
proof (induction p arbitrary: q)
  case Nil
  then show ?case by (cases q) (auto simp: later_shape_def segment_shape_def)
next
  case (Cons a p)
  show ?case
  proof (cases q)
    case Nil
    with Cons(2,4) show ?thesis by (auto simp: later_shape_def segment_shape_def)
  next
    case (Cons b q')
    from Cons.prems(1) have a: "segment_shape a" "\<forall>s \<in> set p. later_shape s" by (auto simp: later_shape_def)
    from Cons.prems(2) Cons have b: "segment_shape b" "\<forall>s \<in> set q'. later_shape s" by (auto simp: later_shape_def)
    from Cons.prems(3) Cons have e: "a @ concat p = b @ concat q'" by simp
    from shape_split[OF a(1) b(1) concat_later_hd[OF a(2)] concat_later_hd[OF b(2)] e]
    have "a = b" "concat p = concat q'" by auto
    with Cons.IH[OF a(2) b(2)] Cons show ?thesis by simp
  qed
qed

lemma node_at_below_shapes:
  "path_keyed_below t \<Longrightarrow> node_at t p \<noteq> None \<Longrightarrow> \<forall>s \<in> set p. later_shape s"
proof (induction p arbitrary: t)
  case Nil
  then show ?case by simp
next
  case (Cons a p)
  from Cons(3) obtain c where c: "map_of (Children t) a = Some c" "node_at c p \<noteq> None"
    by (auto split: option.splits)
  from map_of_SomeD[OF c(1)] Cons(2) have "later_shape a" "path_keyed_below c"
    by (cases t; force)+
  with Cons(1)[OF this(2) c(2)] show ?case by simp
qed

lemma path_keyed_unambiguous: "path_keyed t \<Longrightarrow> unambiguous t"
  unfolding unambiguous_def
proof (rule inj_onI)
  fix p q
  assume pk: "path_keyed t" and p: "p \<in> {p. node_at t p \<noteq> None}" and q: "q \<in> {p. node_at t p \<noteq> None}"
    and e: "concat p = concat q"
  have shapes: "r = [] \<or> (segment_shape (hd r) \<and> (\<forall>s \<in> set (tl r). later_shape s))"
    if "node_at t r \<noteq> None" for r
  proof (cases r)
    case Nil
    then show ?thesis by simp
  next
    case (Cons a r')
    with that obtain c where c: "map_of (Children t) a = Some c" "node_at c r' \<noteq> None"
      by (auto split: option.splits)
    from map_of_SomeD[OF c(1)] pk have "segment_shape a" "path_keyed_below c"
      by (force simp: path_keyed_def)+
    with node_at_below_shapes[OF this(2) c(2)] Cons show ?thesis by simp
  qed
  from p q have sp: "p = [] \<or> (segment_shape (hd p) \<and> (\<forall>s \<in> set (tl p). later_shape s))"
    and sq: "q = [] \<or> (segment_shape (hd q) \<and> (\<forall>s \<in> set (tl q). later_shape s))"
    using shapes by blast+
  show "p = q"
  proof (cases p)
    case Nil
    with e sq show ?thesis by (cases q) (auto simp: segment_shape_def)
  next
    case (Cons a p')
    note pc = this
    show ?thesis
    proof (cases q)
      case Nil
      with e sp pc show ?thesis by (auto simp: segment_shape_def)
    next
      case (Cons b q')
      from sp pc have a: "segment_shape a" "\<forall>s \<in> set p'. later_shape s" by auto
      from sq Cons have b: "segment_shape b" "\<forall>s \<in> set q'. later_shape s" by auto
      from e pc Cons have "a @ concat p' = b @ concat q'" by simp
      from shape_split[OF a(1) b(1) concat_later_hd[OF a(2)] concat_later_hd[OF b(2)] this]
      have "a = b" "concat p' = concat q'" by auto
      with concat_later_inj[OF a(2) b(2)] pc Cons show ?thesis by simp
    qed
  qed
qed

lemma IndexRune_None: "IndexRune xs c = None \<Longrightarrow> c \<notin> set xs"
  by (induction xs) (auto split: if_splits)

lemma IndexRune_Some_at: "IndexRune xs c = Some e \<Longrightarrow> c \<notin> set (take e xs) \<and> xs ! e = c"
  by (induction xs arbitrary: e) (auto split: if_splits)

lemma PathSegmenter_outside:
  "\<not> (0 \<le> j \<and> j < int (length key)) \<Longrightarrow> fst (PathSegmenter key j) = []"
  by (auto simp: PathSegmenter_def)

lemma PathSegmenter_part:
  assumes j: "0 \<le> j" "j < int (length key)"
  shows "segment_shape (fst (PathSegmenter key j)) \<and> hd (fst (PathSegmenter key j)) = key ! nat j \<and>
         (snd (PathSegmenter key j) = - 1 \<or>
          (j < snd (PathSegmenter key j) \<and> snd (PathSegmenter key j) < int (length key) \<and>
           key ! nat (snd (PathSegmenter key j)) = CHR ''/''))"
proof (cases "IndexRune (drop (nat j + 1) key) CHR ''/''")
  case None
  from j have p: "PathSegmenter key j = (drop (nat j) key, - 1)"
    using None by (simp add: PathSegmenter_def)
  have "tl (drop (nat j) key) = drop (nat j + 1) key" by (simp add: drop_Suc tl_drop)
  with IndexRune_None[OF None] j show ?thesis unfolding p
    by (simp add: segment_shape_def hd_drop_conv_nth)
next
  case (Some e)
  from j have kne: "key \<noteq> []" by auto
  from j kne have p: "PathSegmenter key j = (take (e + 1) (drop (nat j) key), j + int e + 1)"
    using Some by (simp add: PathSegmenter_def)
  from IndexRune_Some[OF Some] have e: "nat j + 1 + e < length key" by simp
  have t: "tl (take (e + 1) (drop (nat j) key)) = take e (drop (nat j + 1) key)"
    by (simp add: drop_Suc tl_drop tl_take)
  from IndexRune_Some_at[OF Some] have
    n: "CHR ''/'' \<notin> set (take e (drop (nat j + 1) key))" and a: "drop (nat j + 1) key ! e = CHR ''/''"
    by auto
  from a e have "key ! (nat j + 1 + e) = CHR ''/''" by simp
  moreover have "nat (j + int e + 1) = nat j + 1 + e" using j by auto
  ultimately have "key ! nat (j + int e + 1) = CHR ''/''" by simp
  moreover from j have "key \<noteq> []" by auto
  ultimately show ?thesis using n t e j unfolding p
    by (auto simp: segment_shape_def hd_drop_conv_nth)
qed

lemma path_keyed_below_update:
  "path_keyed_below node \<Longrightarrow> later_shape part \<Longrightarrow> path_keyed_below c \<Longrightarrow>
     path_keyed_below (PathTrie w (AList.update part c (Children node)))"
  using set_update_subset[of part c "Children node"] by (cases node) auto

lemma path_keyed_below_child:
  "path_keyed_below node \<Longrightarrow>
     path_keyed_below (case map_of (Children node) part of None \<Rightarrow> newPathTrie | Some child \<Rightarrow> child)"
  by (cases node) (auto simp: newPathTrie_def split: option.splits dest!: map_of_SomeD)

lemma path_keyed_below_set_value:
  "path_keyed_below node \<Longrightarrow> path_keyed_below (PathTrie w (Children node))"
  by (cases node) simp

lemma Put_loop_path_keyed_below:
  "(0 \<le> j \<and> j < int (length key) \<longrightarrow> key ! nat j = CHR ''/'') \<Longrightarrow> path_keyed_below node \<Longrightarrow>
     Put_loop PathSegmenter key v node (fst (PathSegmenter key j)) (snd (PathSegmenter key j)) = Some t' \<Longrightarrow>
     path_keyed_below t'"
proof (induction "length key - nat j" arbitrary: j node t' rule: less_induct)
  case less
  let ?part = "fst (PathSegmenter key j)" and ?i = "snd (PathSegmenter key j)"
  show ?case
  proof (cases "0 \<le> j \<and> j < int (length key)")
    case False
    from PathSegmenter_outside[OF False] less(4)
    have "t' = PathTrie (Some v) (Children node)" by (subst (asm) Put_loop.simps) simp
    then show ?thesis using path_keyed_below_set_value[OF less(3), of "Some v"] by simp
  next
    case True
    from PathSegmenter_part[of j key] True less(2) have
      sh: "later_shape ?part"
      and nx: "?i = - 1 \<or> (j < ?i \<and> ?i < int (length key) \<and> key ! nat ?i = CHR ''/'')"
      by (auto simp: later_shape_def)
    from sh have ne: "?part \<noteq> []" by (simp add: later_shape_def segment_shape_def)
    let ?c = "case map_of (Children node) ?part of None \<Rightarrow> newPathTrie | Some child \<Rightarrow> child"
    from less(4) ne obtain c' where
      c': "Put_loop PathSegmenter key v ?c (fst (PathSegmenter key ?i)) (snd (PathSegmenter key ?i)) = Some c'"
      and t': "t' = PathTrie (Value node) (AList.update ?part c' (Children node))"
      by (subst (asm) Put_loop.simps) (auto simp: bind_eq_Some_conv)
    have kc: "path_keyed_below ?c" by (rule path_keyed_below_child[OF less(3)])
    have "path_keyed_below c'"
    proof (cases "?i = - 1")
      case True
      with c' have "c' = PathTrie (Some v) (Children ?c)"
        by (subst (asm) Put_loop.simps) (simp add: PathSegmenter_exhausted)
      then show ?thesis using path_keyed_below_set_value[OF kc, of "Some v"] by simp
    next
      case False
      with nx have i: "j < ?i" "?i < int (length key)" "key ! nat ?i = CHR ''/''" by auto
      with True have "length key - nat ?i < length key - nat j" by auto
      from less(1)[OF this _ kc c'] i show ?thesis by simp
    qed
    with less(3) sh show ?thesis unfolding t' by (rule path_keyed_below_update)
  qed
qed

lemma path_keyed_update:
  "path_keyed trie \<Longrightarrow> segment_shape part \<Longrightarrow> path_keyed_below c \<Longrightarrow>
     path_keyed (PathTrie w (AList.update part c (Children trie)))"
  using set_update_subset[of part c "Children trie"] by (auto simp: path_keyed_def)

lemma path_keyed_child:
  "path_keyed trie \<Longrightarrow>
     path_keyed_below (case map_of (Children trie) part of None \<Rightarrow> newPathTrie | Some child \<Rightarrow> child)"
  by (auto simp: path_keyed_def newPathTrie_def split: option.splits dest!: map_of_SomeD)

lemma Put_path_keyed:
  "path_keyed trie \<Longrightarrow> Put PathSegmenter trie key v = Some t' \<Longrightarrow> path_keyed t'"
proof -
  assume pk: "path_keyed trie" and put: "Put PathSegmenter trie key v = Some t'"
  let ?part = "fst (PathSegmenter key 0)" and ?i = "snd (PathSegmenter key 0)"
  from put have lp: "Put_loop PathSegmenter key v trie ?part ?i = Some t'" by (simp add: Put_def)
  show ?thesis
  proof (cases "key = []")
    case True
    then have "?part = []" by (simp add: PathSegmenter_def)
    with lp have "t' = PathTrie (Some v) (Children trie)" by (subst (asm) Put_loop.simps) simp
    with pk show ?thesis by (simp add: path_keyed_def)
  next
    case False
    then have r: "(0::int) \<le> 0" "0 < int (length key)" by auto
    from PathSegmenter_part[OF r] have
      sh: "segment_shape ?part"
      and nx: "?i = - 1 \<or> (0 < ?i \<and> ?i < int (length key) \<and> key ! nat ?i = CHR ''/'')"
      by auto
    from sh have ne: "?part \<noteq> []" by (simp add: segment_shape_def)
    let ?c = "case map_of (Children trie) ?part of None \<Rightarrow> newPathTrie | Some child \<Rightarrow> child"
    from lp ne obtain c' where
      c': "Put_loop PathSegmenter key v ?c (fst (PathSegmenter key ?i)) (snd (PathSegmenter key ?i)) = Some c'"
      and t': "t' = PathTrie (Value trie) (AList.update ?part c' (Children trie))"
      by (subst (asm) Put_loop.simps) (auto simp: bind_eq_Some_conv)
    have kc: "path_keyed_below ?c" by (rule path_keyed_child[OF pk])
    from nx have "0 \<le> ?i \<and> ?i < int (length key) \<longrightarrow> key ! nat ?i = CHR ''/''" by auto
    from Put_loop_path_keyed_below[OF this kc c'] have "path_keyed_below c'" .
    with pk sh show ?thesis unfolding t' by (rule path_keyed_update)
  qed
qed

lemma path_keyed_New: "path_keyed NewPathTrie"
  by (simp add: path_keyed_def NewPathTrie_def)

lemma value_paths_inj: "unambiguous t \<Longrightarrow> inj_on concat {p. value_at t p \<noteq> None}"
  unfolding unambiguous_def
  by (rule inj_on_subset) (auto simp: value_at_def split: option.splits)

lemma nearest_is_node: "nearest t p \<Longrightarrow> node_at t p \<noteq> None"
proof (induction p arbitrary: t)
  case Nil
  then show ?case by simp
next
  case (Cons a p)
  from Cons(2) obtain c where c: "map_of (Children t) a = Some c"
    and r: "if p = [] then Value c \<noteq> None else Value c = None \<and> nearest c p"
    by (auto split: option.splits)
  show ?case
  proof (cases "p = []")
    case True
    with c show ?thesis by simp
  next
    case False
    with r have "nearest c p" by simp
    from Cons(1)[OF this] c show ?thesis by simp
  qed
qed

lemma nearest_paths_inj: "unambiguous t \<Longrightarrow> inj_on concat {p. nearest t p}"
  unfolding unambiguous_def
  by (rule inj_on_subset) (auto dest: nearest_is_node)

lemma path_keyed_value_keys: "path_keyed t \<Longrightarrow> inj_on concat {p. value_at t p \<noteq> None}"
  by (rule value_paths_inj[OF path_keyed_unambiguous])

lemma path_keyed_nearest_keys: "path_keyed t \<Longrightarrow> inj_on concat {p. nearest t p}"
  by (rule nearest_paths_inj[OF path_keyed_unambiguous])

end
